theory Spec2Isabelle
  imports Main
begin

section \<open>Values, errors and configuration\<close>

text \<open>
  The loader \<^verbatim>\<open>src/etl/load_to_db.py\<close> reads CSV files with \<^verbatim>\<open>csv.DictReader\<close> and writes
  them to PostgreSQL through one psycopg connection opened with \<^verbatim>\<open>autocommit=False\<close>.
  A Python value that reaches the cursor is a string read from the file, \<^verbatim>\<open>None\<close> (the
  reader's \<^verbatim>\<open>restval\<close> for a short line) or a \<^verbatim>\<open>datetime\<close> (the result of
  \<^verbatim>\<open>dt.datetime.utcnow()\<close>, here a number of clock units).
\<close>

datatype pyval = PStr string | PNone | PTime nat

datatype error =
    FileNotFoundError string
  | KeyError string
  | DataError
  | ProgrammingError
  | UniqueViolation
  | InFailedSqlTransaction
  | UnicodeDecodeError
  | CsvError

type_synonym row = "string \<rightharpoonup> pyval"
type_synonym table = "row list"

datatype details = Stats "(string \<times> nat) list" | Failure error

text \<open>One row of \<^verbatim>\<open>public.load_audit\<close>, with the columns of the \<^verbatim>\<open>DDL\<close>.\<close>

record audit_row =
  batch_id :: nat
  load_date :: nat
  started_at_utc :: nat
  finished_at_utc :: "nat option"
  status :: string
  details :: details

text \<open>The committed content of the database: the data tables by name, and the audit table.\<close>

record db =
  tables :: "string \<Rightarrow> table"
  load_audit :: "audit_row list"

text \<open>
  The open connection: the uncommitted view of the transaction, the flag PostgreSQL sets
  when a statement of the transaction has failed (every later statement is then refused
  until the transaction ends), the batches handed to \<^verbatim>\<open>executemany\<close> so far, one entry
  per call, and the number of clock readings taken so far.
\<close>

record session =
  s_tables :: "string \<Rightarrow> table"
  s_audit :: "audit_row list"
  aborted :: bool
  sent :: "pyval list list list"
  ticks :: nat

text \<open>
  What the run receives from outside: the successive readings of the wall clock, the
  conversion the storage engine applies to a value bound to a column of a table
  (\<open>None\<close> when the value cannot be stored there; the \<^verbatim>\<open>CREATE TABLE\<close> statements of the
  three data tables are not part of the repository), the files of \<^verbatim>\<open>DATA_DIR\<close> by file name
  and \<^verbatim>\<open>LOAD_DATE\<close>. A file is read lazily, line by line, while the loop of \<^verbatim>\<open>load_table\<close>
  runs: \<open>files\<close> gives the lines \<^verbatim>\<open>csv.reader\<close> yields, and \<open>read_error\<close> the error the
  reader raises after them when the file cannot be read to its end (\<^verbatim>\<open>UnicodeDecodeError\<close>,
  \<^verbatim>\<open>csv.Error\<close>).
\<close>

record env =
  clock :: "nat \<Rightarrow> nat"
  coerce :: "string \<Rightarrow> string \<Rightarrow> pyval \<Rightarrow> pyval option"
  files :: "string \<rightharpoonup> string list list"
  read_error :: "string \<rightharpoonup> error"
  LOAD_DATE :: nat

definition FILES :: "(string \<times> string \<times> string list \<times> string) list" where
  "FILES =
    [(''public.customers'', ''customers.csv'',
        [''id'', ''name'', ''email'', ''registration_date'', ''country''], ''id''),
     (''public.products'', ''products.csv'',
        [''id'', ''name'', ''category'', ''price'', ''supplier''], ''id''),
     (''public.transactions'', ''transactions.csv'',
        [''id'', ''customer_id'', ''product_id'', ''quantity'', ''timestamp'', ''payment_method''],
        ''id'')]"

section \<open>The upsert statement\<close>

text \<open>
  \<^verbatim>\<open>upsert_sql\<close> builds the text of
  \<^verbatim>\<open>INSERT INTO t (col_list) VALUES (placeholders) ON CONFLICT (pk) DO UPDATE SET updates\<close>.
  The model keeps the parts the function computes.
\<close>

record upsert_stmt =
  target :: string
  col_list :: "string list"
  placeholders :: nat
  conflict :: string
  updates :: "string list"

definition upsert_sql :: "string \<Rightarrow> string list \<Rightarrow> string \<Rightarrow> upsert_stmt" where
  "upsert_sql table cols pk =
    \<lparr> target = table,
      col_list = cols @ [''_ingested_at''],
      placeholders = length cols + 1,
      conflict = pk,
      updates = [c \<leftarrow> cols. c \<noteq> pk] @ [''_ingested_at''] \<rparr>"

text \<open>
  The value stored in a column. \<^verbatim>\<open>_ingested_at\<close> is \<^verbatim>\<open>TIMESTAMPTZ\<close> by the \<^verbatim>\<open>DDL\<close> of the
  loader and takes a \<^verbatim>\<open>datetime\<close> as it is; every other binding goes through the
  conversion of the storage engine.
\<close>

definition store_value :: "env \<Rightarrow> string \<Rightarrow> string \<Rightarrow> pyval \<Rightarrow> pyval option" where
  "store_value E t c v =
    (case v of
       PTime n \<Rightarrow> if c = ''_ingested_at'' then Some v else coerce E t c v
     | _ \<Rightarrow> coerce E t c v)"

fun store_values :: "env \<Rightarrow> string \<Rightarrow> string list \<Rightarrow> pyval list \<Rightarrow> pyval list option" where
  "store_values E t [] [] = Some []"
| "store_values E t (c # cs) (v # vs) =
    (case store_value E t c v of
       None \<Rightarrow> None
     | Some w \<Rightarrow> (case store_values E t cs vs of None \<Rightarrow> None | Some ws \<Rightarrow> Some (w # ws)))"
| "store_values E t _ _ = None"

text \<open>
  The row proposed for insertion (\<^verbatim>\<open>EXCLUDED\<close> in the statement): the parameters must be as
  many as the placeholders and the columns, no column may be named twice, and every value
  must be storable in its column.
\<close>

definition excluded_row :: "env \<Rightarrow> upsert_stmt \<Rightarrow> pyval list \<Rightarrow> error + row" where
  "excluded_row E q vals =
    (if length vals \<noteq> placeholders q \<or> placeholders q \<noteq> length (col_list q)
        \<or> \<not> distinct (col_list q)
     then Inl ProgrammingError
     else case store_values E (target q) (col_list q) vals of
            None \<Rightarrow> Inl DataError
          | Some ws \<Rightarrow> Inr (map_of (zip (col_list q) ws)))"

text \<open>
  One execution of the statement on a table. The conflict column is the primary key of the
  table: a row without a key value is refused; a row whose key is already present has the
  columns of the \<^verbatim>\<open>SET\<close> list overwritten from the proposed row and keeps the others;
  otherwise the proposed row is appended.
\<close>

definition merge_row :: "upsert_stmt \<Rightarrow> row \<Rightarrow> row \<Rightarrow> row" where
  "merge_row q ex r = (\<lambda>c. if c \<in> set (updates q) then ex c else r c)"

definition execute_upsert :: "env \<Rightarrow> upsert_stmt \<Rightarrow> pyval list \<Rightarrow> table \<Rightarrow> error + table" where
  "execute_upsert E q vals T =
    (case excluded_row E q vals of
       Inl e \<Rightarrow> Inl e
     | Inr ex \<Rightarrow>
        (case ex (conflict q) of
           None \<Rightarrow> Inl DataError
         | Some k \<Rightarrow>
            if k = PNone then Inl DataError
            else if (\<exists>r \<in> set T. r (conflict q) = Some k)
              then Inr (map (\<lambda>r. if r (conflict q) = Some k then merge_row q ex r else r) T)
              else Inr (T @ [ex])))"

text \<open>
  \<^verbatim>\<open>cur.executemany(sql, batch)\<close>: the statement runs once per parameter row, in order. The
  first row the storage refuses raises and leaves the transaction aborted; a call on an
  aborted transaction is refused at once.
\<close>

fun run_batch :: "env \<Rightarrow> upsert_stmt \<Rightarrow> pyval list list \<Rightarrow> session \<Rightarrow> (error + unit) \<times> session" where
  "run_batch E q [] s = (Inr (), s)"
| "run_batch E q (vals # rest) s =
    (case execute_upsert E q vals (s_tables s (target q)) of
       Inl e \<Rightarrow> (Inl e, s\<lparr>aborted := True\<rparr>)
     | Inr T' \<Rightarrow> run_batch E q rest (s\<lparr>s_tables := (s_tables s)(target q := T')\<rparr>))"

definition executemany :: "env \<Rightarrow> upsert_stmt \<Rightarrow> pyval list list \<Rightarrow> session \<Rightarrow> (error + unit) \<times> session" where
  "executemany E q batch s =
    (let s' = s\<lparr>sent := sent s @ [batch]\<rparr>
     in if aborted s then (Inl InFailedSqlTransaction, s') else run_batch E q batch s')"

section \<open>Reading the file\<close>

text \<open>
  \<^verbatim>\<open>csv.DictReader\<close>: the first line gives the field names; blank lines are skipped; a line
  becomes \<^verbatim>\<open>dict(zip(fieldnames, line))\<close>, and the field names a short line does not reach
  are set to \<^verbatim>\<open>restval\<close>, which is \<^verbatim>\<open>None\<close>. (The surplus of a long line is stored under the
  key \<^verbatim>\<open>None\<close>, which no column name can read.)
\<close>

definition dict_row :: "string list \<Rightarrow> string list \<Rightarrow> (string \<rightharpoonup> pyval)" where
  "dict_row fieldnames line =
    fold (\<lambda>key d. d(key \<mapsto> PNone)) (drop (length line) fieldnames)
      (map_of (rev (zip fieldnames (map PStr line))))"

definition DictReader :: "string list list \<Rightarrow> (string \<rightharpoonup> pyval) list" where
  "DictReader lines =
    (case lines of
       [] \<Rightarrow> []
     | fieldnames # rest \<Rightarrow> map (dict_row fieldnames) (filter (\<lambda>line. line \<noteq> []) rest))"

text \<open>\<^verbatim>\<open>[row[c] for c in cols]\<close>: the first column the record lacks raises \<^verbatim>\<open>KeyError\<close>.\<close>

fun row_values :: "string list \<Rightarrow> (string \<rightharpoonup> pyval) \<Rightarrow> error + pyval list" where
  "row_values [] r = Inr []"
| "row_values (c # cols) r =
    (case r c of
       None \<Rightarrow> Inl (KeyError c)
     | Some v \<Rightarrow> (case row_values cols r of Inl e \<Rightarrow> Inl e | Inr vs \<Rightarrow> Inr (v # vs)))"

definition utcnow :: "env \<Rightarrow> session \<Rightarrow> nat \<times> session" where
  "utcnow E s = (clock E (ticks s), s\<lparr>ticks := Suc (ticks s)\<rparr>)"

section \<open>load_table\<close>

text \<open>
  What the loop of \<^verbatim>\<open>load_table\<close> iterates over: the records of the reader, in order, and
  then the error of the reader, if the file cannot be read to its end.
\<close>

definition reader :: "env \<Rightarrow> string \<Rightarrow> string list list \<Rightarrow> (error + (string \<rightharpoonup> pyval)) list" where
  "reader E csv_path lines =
    map Inr (DictReader lines) @
      (case read_error E csv_path of None \<Rightarrow> [] | Some e \<Rightarrow> [Inl e])"

text \<open>
  The loop of \<^verbatim>\<open>load_table\<close>, with the batch and the count of submitted rows as they
  stand. An error of the reader leaves the loop at once: the rows of the pending batch are
  not sent, and what earlier calls of \<^verbatim>\<open>executemany\<close> did stays in the transaction. The chunk
  size, \<^verbatim>\<open>1000\<close> in the source, is the parameter \<open>n\<close>.
\<close>

fun load_loop :: "env \<Rightarrow> nat \<Rightarrow> upsert_stmt \<Rightarrow> string list
    \<Rightarrow> (error + (string \<rightharpoonup> pyval)) list
    \<Rightarrow> pyval list list \<Rightarrow> nat \<Rightarrow> session \<Rightarrow> (error + nat) \<times> session" where
  "load_loop E n sql cols [] batch submitted s =
    (if batch \<noteq> [] then
       (case executemany E sql batch s of
          (Inl e, s') \<Rightarrow> (Inl e, s')
        | (Inr u, s') \<Rightarrow> (Inr (submitted + length batch), s'))
     else (Inr submitted, s))"
| "load_loop E n sql cols (Inl e # items) batch submitted s = (Inl e, s)"
| "load_loop E n sql cols (Inr r # items) batch submitted s =
    (case row_values cols r of
       Inl e \<Rightarrow> (Inl e, s)
     | Inr vs \<Rightarrow>
        (case utcnow E s of
           (now, s1) \<Rightarrow>
            (let batch' = batch @ [vs @ [PTime now]]
             in if length batch' \<ge> n then
                  (case executemany E sql batch' s1 of
                     (Inl e, s2) \<Rightarrow> (Inl e, s2)
                   | (Inr u, s2) \<Rightarrow>
                      load_loop E n sql cols items [] (submitted + length batch') s2)
                else load_loop E n sql cols items batch' submitted s1)))"

definition load_table_chunked :: "nat \<Rightarrow> env \<Rightarrow> string \<Rightarrow> string \<Rightarrow> string list \<Rightarrow> string
    \<Rightarrow> session \<Rightarrow> (error + nat) \<times> session" where
  "load_table_chunked n E table csv_path cols pk s =
    (case files E csv_path of
       None \<Rightarrow> (Inl (FileNotFoundError csv_path), s)
     | Some lines \<Rightarrow>
        load_loop E n (upsert_sql table cols pk) cols (reader E csv_path lines) [] 0 s)"

definition load_table :: "env \<Rightarrow> string \<Rightarrow> string \<Rightarrow> string list \<Rightarrow> string
    \<Rightarrow> session \<Rightarrow> (error + nat) \<times> session" where
  "load_table = load_table_chunked 1000"

section \<open>main\<close>

datatype outcome = Returned | Raised error

text \<open>The check of the files, before the connection is opened.\<close>

fun check_files :: "env \<Rightarrow> (string \<times> string \<times> string list \<times> string) list \<Rightarrow> error option" where
  "check_files E [] = None"
| "check_files E ((table, filename, cols, pk) # fs) =
    (if files E filename = None then Some (FileNotFoundError table) else check_files E fs)"

text \<open>The \<^verbatim>\<open>INSERT\<close> of the audit row; \<^verbatim>\<open>batch_id\<close> is the primary key of the audit table.\<close>

definition insert_audit :: "audit_row \<Rightarrow> session \<Rightarrow> (error + unit) \<times> session" where
  "insert_audit a s =
    (if aborted s then (Inl InFailedSqlTransaction, s)
     else if (\<exists>r \<in> set (s_audit s). batch_id r = batch_id a)
       then (Inl UniqueViolation, s\<lparr>aborted := True\<rparr>)
       else (Inr (), s\<lparr>s_audit := s_audit s @ [a]\<rparr>))"

text \<open>\<^verbatim>\<open>UPDATE public.load_audit SET finished_at_utc, status, details WHERE batch_id\<close>.\<close>

definition update_audit :: "nat \<Rightarrow> string \<Rightarrow> details \<Rightarrow> nat \<Rightarrow> session \<Rightarrow> (error + unit) \<times> session" where
  "update_audit finished st d b s =
    (if aborted s then (Inl InFailedSqlTransaction, s)
     else (Inr (),
       s\<lparr>s_audit :=
           map (\<lambda>r. if batch_id r = b
                    then r\<lparr>finished_at_utc := Some finished, status := st, details := d\<rparr>
                    else r) (s_audit s)\<rparr>))"

text \<open>
  \<^verbatim>\<open>conn.commit()\<close> makes the view of the transaction the committed content; on an aborted
  transaction PostgreSQL answers a commit with a rollback.
\<close>

definition commit :: "db \<Rightarrow> session \<Rightarrow> db" where
  "commit db0 s = (if aborted s then db0 else \<lparr> tables = s_tables s, load_audit = s_audit s \<rparr>)"

text \<open>The loop over \<^verbatim>\<open>FILES\<close> inside the \<^verbatim>\<open>try\<close> block, collecting \<^verbatim>\<open>details\<close>.\<close>

fun load_all :: "env \<Rightarrow> (string \<times> string \<times> string list \<times> string) list \<Rightarrow> (string \<times> nat) list
    \<Rightarrow> session \<Rightarrow> (error + (string \<times> nat) list) \<times> session" where
  "load_all E [] dets s = (Inr dets, s)"
| "load_all E ((table, filename, cols, pk) # fs) dets s =
    (case load_table E table filename cols pk s of
       (Inl e, s') \<Rightarrow> (Inl e, s')
     | (Inr n, s') \<Rightarrow> load_all E fs (dets @ [(table, n)]) s')"

text \<open>The body of the \<^verbatim>\<open>try\<close> block up to the commit.\<close>

definition try_body :: "env \<Rightarrow> nat \<Rightarrow> session \<Rightarrow> (error + unit) \<times> session" where
  "try_body E b s =
    (case load_all E FILES [] s of
       (Inl e, s') \<Rightarrow> (Inl e, s')
     | (Inr dets, s') \<Rightarrow>
        (case utcnow E s' of
           (finished, s'') \<Rightarrow> update_audit finished ''succeeded'' (Stats dets) b s''))"

text \<open>
  \<^verbatim>\<open>main\<close>, from the committed content before the run to the outcome and the committed
  content after it. \<open>b\<close> is the value of \<^verbatim>\<open>uuid.uuid4()\<close>. An exception that leaves the
  \<^verbatim>\<open>with psycopg.connect(...)\<close> block before a commit rolls the transaction back. The
  statements of \<^verbatim>\<open>DDL\<close> create the audit table and the \<^verbatim>\<open>_ingested_at\<close> columns where they
  are absent and change no row.
\<close>

definition main :: "env \<Rightarrow> nat \<Rightarrow> db \<Rightarrow> outcome \<times> db" where
  "main E b db0 =
    (let started = clock E 0 in
     case check_files E FILES of
       Some e \<Rightarrow> (Raised e, db0)
     | None \<Rightarrow>
        (let s = \<lparr> s_tables = tables db0, s_audit = load_audit db0, aborted = False,
                   sent = [], ticks = 1 \<rparr>
         in case insert_audit
              \<lparr> batch_id = b, load_date = LOAD_DATE E, started_at_utc = started,
                finished_at_utc = None, status = ''running'', details = Stats [] \<rparr> s of
              (Inl e, s1) \<Rightarrow> (Raised e, db0)
            | (Inr u, s1) \<Rightarrow>
               (case try_body E b s1 of
                  (Inr u, s2) \<Rightarrow> (Returned, commit db0 s2)
                | (Inl e, s2) \<Rightarrow>
                   (case utcnow E s2 of
                      (finished, s3) \<Rightarrow>
                       (case update_audit finished ''failed'' (Failure e) b s3 of
                          (Inl e', s4) \<Rightarrow> (Raised e', db0)
                        | (Inr u, s4) \<Rightarrow> (Raised e, commit db0 s4))))))"

section \<open>Notions used in the statements\<close>

text \<open>
  The definitions of this section are not part of the loader. They name what the theorems
  below talk about: whether the storage accepts a parameter row, the row it proposes, the
  effect of a successful upsert on a table, the parameter rows the loop of \<^verbatim>\<open>load_table\<close>
  builds for a list of records, and when a record is well formed for a dataset.
\<close>

definition storable :: "env \<Rightarrow> upsert_stmt \<Rightarrow> pyval list \<Rightarrow> bool" where
  "storable E q vals =
    (case excluded_row E q vals of
       Inl e \<Rightarrow> False
     | Inr ex \<Rightarrow> (case ex (conflict q) of None \<Rightarrow> False | Some k \<Rightarrow> k \<noteq> PNone))"

definition the_excluded :: "env \<Rightarrow> upsert_stmt \<Rightarrow> pyval list \<Rightarrow> row" where
  "the_excluded E q vals = (case excluded_row E q vals of Inl e \<Rightarrow> Map.empty | Inr ex \<Rightarrow> ex)"

definition upsert_error :: "env \<Rightarrow> upsert_stmt \<Rightarrow> pyval list \<Rightarrow> error" where
  "upsert_error E q vals = (case excluded_row E q vals of Inl e \<Rightarrow> e | Inr ex \<Rightarrow> DataError)"

definition upsert_row :: "upsert_stmt \<Rightarrow> row \<Rightarrow> table \<Rightarrow> table" where
  "upsert_row q ex T =
    (if (\<exists>r \<in> set T. r (conflict q) = ex (conflict q))
     then map (\<lambda>r. if r (conflict q) = ex (conflict q) then merge_row q ex r else r) T
     else T @ [ex])"

definition first_error :: "env \<Rightarrow> upsert_stmt \<Rightarrow> pyval list list \<Rightarrow> error + unit" where
  "first_error E q batch =
    (case dropWhile (storable E q) batch of [] \<Rightarrow> Inr () | vals # rest \<Rightarrow> Inl (upsert_error E q vals))"

definition applied :: "env \<Rightarrow> upsert_stmt \<Rightarrow> pyval list list \<Rightarrow> table \<Rightarrow> table" where
  "applied E q batch T = fold (upsert_row q) (map (the_excluded E q) (takeWhile (storable E q) batch)) T"

fun stamped :: "env \<Rightarrow> nat \<Rightarrow> string list \<Rightarrow> (string \<rightharpoonup> pyval) list \<Rightarrow> pyval list list" where
  "stamped E t cols [] = []"
| "stamped E t cols (r # rs) =
    (map (\<lambda>c. the (r c)) cols @ [PTime (clock E t)]) # stamped E (Suc t) cols rs"

definition chunked :: "nat \<Rightarrow> 'a list list \<Rightarrow> bool" where
  "chunked n new \<longleftrightarrow>
    (\<forall>b \<in> set new. b \<noteq> [] \<and> length b \<le> max n 1) \<and>
    (\<forall>i. Suc i < length new \<longrightarrow> length (new ! i) = max n 1)"

definition loop_post :: "env \<Rightarrow> nat \<Rightarrow> string list \<Rightarrow> (string \<rightharpoonup> pyval) list
    \<Rightarrow> pyval list list \<Rightarrow> session \<Rightarrow> session \<Rightarrow> bool" where
  "loop_post E n cols rs batch s s' \<longleftrightarrow>
    ticks s' = ticks s + length rs \<and>
    (\<exists>new. sent s' = sent s @ new \<and> concat new = batch @ stamped E (ticks s) cols rs \<and>
       chunked n new)"

definition acceptable :: "env \<Rightarrow> string \<Rightarrow> string list \<Rightarrow> string \<Rightarrow> (string \<rightharpoonup> pyval) \<Rightarrow> bool" where
  "acceptable E t cols pk r \<longleftrightarrow>
    set cols \<subseteq> dom r \<and> (\<forall>c \<in> set cols. coerce E t c (the (r c)) \<noteq> None) \<and>
    coerce E t pk (the (r pk)) \<noteq> Some PNone"

definition wf_desc :: "string list \<Rightarrow> string \<Rightarrow> bool" where
  "wf_desc cols pk \<longleftrightarrow> distinct cols \<and> pk \<in> set cols \<and> ''_ingested_at'' \<notin> set cols"

text \<open>The instant a \<^verbatim>\<open>datetime\<close> value stands for.\<close>

definition time_of :: "pyval \<Rightarrow> nat" where
  "time_of v = (case v of PTime n \<Rightarrow> n | _ \<Rightarrow> 0)"

text \<open>The rows the storage proposes for the records of a load that starts at clock reading \<open>n\<close>.\<close>

definition proposed :: "env \<Rightarrow> string \<Rightarrow> string list \<Rightarrow> string \<Rightarrow> nat
    \<Rightarrow> (string \<rightharpoonup> pyval) list \<Rightarrow> row list" where
  "proposed E t cols pk n rs =
    map (the_excluded E (upsert_sql t cols pk)) (stamped E n cols rs)"

text \<open>The end of the reader's items: nothing, or the error it raises.\<close>

definition reader_end :: "error option \<Rightarrow> (error + (string \<rightharpoonup> pyval)) list" where
  "reader_end err = (case err of None \<Rightarrow> [] | Some e \<Rightarrow> [Inl e])"

text \<open>The statistics of a successful run: for each dataset, the number of records of its file.\<close>

definition counts :: "env \<Rightarrow> (string \<times> string \<times> string list \<times> string) list
    \<Rightarrow> (string \<times> nat) list" where
  "counts E fs =
    map (\<lambda>(t, f, cols, pk).
          (t, case files E f of None \<Rightarrow> 0 | Some lines \<Rightarrow> length (DictReader lines))) fs"

text \<open>Some configured file has a record that lacks a declared column.\<close>

definition lacks_column :: "env \<Rightarrow> (string \<times> string \<times> string list \<times> string) list \<Rightarrow> bool" where
  "lacks_column E fs \<longleftrightarrow>
    (\<exists>t f cols pk lines. (t, f, cols, pk) \<in> set fs \<and> files E f = Some lines \<and>
       (\<exists>r \<in> set (DictReader lines). \<not> set cols \<subseteq> dom r))"

text \<open>The reader of some configured file raises \<open>e\<close>; the reader of every file reaches the end.\<close>

definition reading_fails :: "env \<Rightarrow> (string \<times> string \<times> string list \<times> string) list \<Rightarrow> error
    \<Rightarrow> bool" where
  "reading_fails E fs e \<longleftrightarrow> list_ex (\<lambda>(t, f, cols, pk). read_error E f = Some e) fs"

definition read_to_end :: "env \<Rightarrow> (string \<times> string \<times> string list \<times> string) list \<Rightarrow> bool" where
  "read_to_end E fs \<longleftrightarrow> list_all (\<lambda>(t, f, cols, pk). read_error E f = None) fs"

text \<open>
  The audit row \<^verbatim>\<open>main\<close> inserts, as its \<^verbatim>\<open>UPDATE\<close> leaves it, and the session after the
  \<^verbatim>\<open>INSERT\<close>.
\<close>

definition audit_entry :: "env \<Rightarrow> nat \<Rightarrow> nat option \<Rightarrow> string \<Rightarrow> details \<Rightarrow> audit_row" where
  "audit_entry E b fin st d =
    \<lparr> batch_id = b, load_date = LOAD_DATE E, started_at_utc = clock E 0,
      finished_at_utc = fin, status = st, details = d \<rparr>"

definition started_session :: "env \<Rightarrow> nat \<Rightarrow> db \<Rightarrow> session" where
  "started_session E b db0 =
    \<lparr> s_tables = tables db0,
      s_audit = load_audit db0 @ [audit_entry E b None ''running'' (Stats [])],
      aborted = False, sent = [], ticks = 1 \<rparr>"

section \<open>Example inputs\<close>

text \<open>
  A storage engine for the examples: \<^verbatim>\<open>id\<close> and \<^verbatim>\<open>quantity\<close> are integer columns, \<^verbatim>\<open>id\<close> is
  not null, every other column is text. The clock advances by ten units per reading.
\<close>

definition digits :: "string \<Rightarrow> bool" where
  "digits s \<longleftrightarrow> s \<noteq> [] \<and> list_all (\<lambda>ch. ch \<in> set ''0123456789'') s"

definition coerce_ex :: "string \<Rightarrow> string \<Rightarrow> pyval \<Rightarrow> pyval option" where
  "coerce_ex t c v =
    (case v of
       PStr s \<Rightarrow> if (c = ''id'' \<or> c = ''quantity'') \<and> \<not> digits s then None else Some (PStr s)
     | PNone \<Rightarrow> if c = ''id'' then None else Some PNone
     | PTime n \<Rightarrow> None)"

definition clock_ex :: "nat \<Rightarrow> nat" where
  "clock_ex i = 1000 + 10 * i"

definition db_empty :: db where
  "db_empty = \<lparr> tables = (\<lambda>t. []), load_audit = [] \<rparr>"

definition session_empty :: session where
  "session_empty = \<lparr> s_tables = (\<lambda>t. []), s_audit = [], aborted = False, sent = [], ticks = 0 \<rparr>"

definition customers_ok :: "string list list" where
  "customers_ok =
    [[''id'', ''name'', ''email'', ''registration_date'', ''country''],
     [''1'', ''Ann'', ''ann@example.org'', ''2024-01-05'', ''PT'']]"

definition products_ok :: "string list list" where
  "products_ok =
    [[''id'', ''name'', ''category'', ''price'', ''supplier''],
     [''1'', ''Mat'', ''Sports'', ''19.99'', ''Acme'']]"

definition products_twice :: "string list list" where
  "products_twice =
    [[''id'', ''name'', ''category'', ''price'', ''supplier''],
     [''1'', ''Mat'', ''Sports'', ''19.99'', ''Acme''],
     [''2'', ''Ball'', ''Sports'', ''5.00'', ''Acme''],
     [''1'', ''Mat Pro'', ''Sports'', ''24.99'', ''Acme'']]"

definition products_no_supplier :: "string list list" where
  "products_no_supplier =
    [[''id'', ''name'', ''category'', ''price''],
     [''1'', ''Mat'', ''Sports'', ''19.99'']]"

definition products_short_line :: "string list list" where
  "products_short_line =
    [[''id'', ''name'', ''category'', ''price'', ''supplier''],
     [''1'', ''Mat'', ''Sports'']]"

definition transactions_ok :: "string list list" where
  "transactions_ok =
    [[''id'', ''customer_id'', ''product_id'', ''quantity'', ''timestamp'', ''payment_method''],
     [''1'', ''1'', ''1'', ''2'', ''2024-02-01T10:00:00'', ''card'']]"

definition transactions_bad_quantity :: "string list list" where
  "transactions_bad_quantity =
    [[''id'', ''customer_id'', ''product_id'', ''quantity'', ''timestamp'', ''payment_method''],
     [''1'', ''1'', ''1'', ''two'', ''2024-02-01T10:00:00'', ''card'']]"

definition transactions_no_method :: "string list list" where
  "transactions_no_method =
    [[''id'', ''customer_id'', ''product_id'', ''quantity'', ''timestamp''],
     [''1'', ''1'', ''1'', ''2'', ''2024-02-01T10:00:00'']]"

definition env_ex :: "(string \<rightharpoonup> string list list) \<Rightarrow> env" where
  "env_ex fs = \<lparr> clock = clock_ex, coerce = coerce_ex, files = fs, read_error = Map.empty,
     LOAD_DATE = 20000 \<rparr>"

definition files3 :: "string list list \<Rightarrow> string list list \<Rightarrow> string list list
    \<Rightarrow> (string \<rightharpoonup> string list list)" where
  "files3 c p t = [''customers.csv'' \<mapsto> c, ''products.csv'' \<mapsto> p, ''transactions.csv'' \<mapsto> t]"

definition product_cols :: "string list" where
  "product_cols = [''id'', ''name'', ''category'', ''price'', ''supplier'']"

definition mat_pro :: "string \<rightharpoonup> pyval" where
  "mat_pro = dict_row product_cols [''1'', ''Mat Pro'', ''Sports'', ''24.99'', ''Acme'']"

definition old_mat :: row where
  "old_mat = [''id'' \<mapsto> PStr ''1'', ''name'' \<mapsto> PStr ''Mat'', ''_ingested_at'' \<mapsto> PTime 1000]"

text \<open>A later run against the same storage, and the session it opens on what a session left.\<close>

definition env_later :: "(string \<rightharpoonup> string list list) \<Rightarrow> env" where
  "env_later fs = \<lparr> clock = (\<lambda>i. 5000 + 10 * i), coerce = coerce_ex, files = fs,
     read_error = Map.empty, LOAD_DATE = 20001 \<rparr>"

definition session_after :: "session \<Rightarrow> session" where
  "session_after s = \<lparr> s_tables = s_tables s, s_audit = s_audit s, aborted = False, sent = [],
     ticks = 1 \<rparr>"

text \<open>
  The same engine reading a \<^verbatim>\<open>products.csv\<close> that goes on, after the lines given, with a line
  the \<^verbatim>\<open>csv\<close> module refuses (a field longer than its field size limit): the reader yields
  the records of the lines given and then raises \<^verbatim>\<open>csv.Error\<close>.
\<close>

definition env_csv_error :: "(string \<rightharpoonup> string list list) \<Rightarrow> env" where
  "env_csv_error fs = \<lparr> clock = clock_ex, coerce = coerce_ex, files = fs,
     read_error = [''products.csv'' \<mapsto> CsvError], LOAD_DATE = 20000 \<rparr>"

text \<open>The same engine on a machine whose clock is set back by ten units between readings.\<close>

definition env_clock_back :: "(string \<rightharpoonup> string list list) \<Rightarrow> env" where
  "env_clock_back fs = \<lparr> clock = (\<lambda>i. 100 - 10 * i), coerce = coerce_ex, files = fs,
     read_error = Map.empty, LOAD_DATE = 20000 \<rparr>"

text \<open>The column lists of the customers and the transactions in \<^verbatim>\<open>FILES\<close>.\<close>

definition customer_cols :: "string list" where
  "customer_cols = [''id'', ''name'', ''email'', ''registration_date'', ''country'']"

definition transaction_cols :: "string list" where
  "transaction_cols =
    [''id'', ''customer_id'', ''product_id'', ''quantity'', ''timestamp'', ''payment_method'']"

section \<open>Properties of the statement, the batches and the loop\<close>

lemma execute_upsert_storable:
  "storable E q vals \<Longrightarrow> execute_upsert E q vals T = Inr (upsert_row q (the_excluded E q vals) T)"
  by (auto simp: storable_def execute_upsert_def the_excluded_def upsert_row_def
      split: sum.splits option.splits)

lemma execute_upsert_not_storable:
  "\<not> storable E q vals \<Longrightarrow> execute_upsert E q vals T = Inl (upsert_error E q vals)"
  by (auto simp: storable_def execute_upsert_def upsert_error_def split: sum.splits option.splits)

lemma first_error_Cons:
  "first_error E q (v # vs) = (if storable E q v then first_error E q vs else Inl (upsert_error E q v))"
  by (simp add: first_error_def)

lemma applied_Cons:
  "applied E q (v # vs) T =
     (if storable E q v then applied E q vs (upsert_row q (the_excluded E q v) T) else T)"
  by (simp add: applied_def)

lemma applied_Nil [simp]: "applied E q [] T = T"
  by (simp add: applied_def)

lemma first_error_Nil [simp]: "first_error E q [] = Inr ()"
  by (simp add: first_error_def)

lemma run_batch_eq:
  "run_batch E q batch s =
    (first_error E q batch,
     s\<lparr>s_tables := (s_tables s)(target q := applied E q batch (s_tables s (target q))),
       aborted := aborted s \<or> \<not> list_all (storable E q) batch\<rparr>)"
proof (induction batch arbitrary: s)
  case Nil
  show ?case by simp
next
  case (Cons v vs)
  show ?case
  proof (cases "storable E q v")
    case True
    have "(\<lambda>a. if a = target q
             then applied E q vs (upsert_row q (the_excluded E q v) (s_tables s (target q)))
             else if a = target q then upsert_row q (the_excluded E q v) (s_tables s (target q))
             else s_tables s a) =
          (\<lambda>a. if a = target q
             then applied E q vs (upsert_row q (the_excluded E q v) (s_tables s (target q)))
             else s_tables s a)"
      by (rule ext) simp
    with True show ?thesis
      by (simp add: execute_upsert_storable Cons.IH first_error_Cons applied_Cons)
  next
    case False
    then show ?thesis
      by (simp add: execute_upsert_not_storable first_error_Cons applied_Cons)
  qed
qed

lemma first_error_append:
  "first_error E q (xs @ ys) =
    (if list_all (storable E q) xs then first_error E q ys else first_error E q xs)"
  by (induction xs) (simp_all add: first_error_Cons)

lemma applied_append:
  "applied E q (xs @ ys) T =
    (if list_all (storable E q) xs then applied E q ys (applied E q xs T) else applied E q xs T)"
  by (induction xs arbitrary: T) (simp_all add: applied_Cons)

lemma first_error_ok: "first_error E q xs = Inr u \<longleftrightarrow> list_all (storable E q) xs"
  by (induction xs) (simp_all add: first_error_Cons)

lemma row_values_ok: "set cols \<subseteq> dom r \<Longrightarrow> row_values cols r = Inr (map (\<lambda>c. the (r c)) cols)"
  by (induction cols) (auto split: option.splits)

lemma row_values_err:
  "\<exists>c \<in> set cols. r c = None \<Longrightarrow> \<exists>c \<in> set cols. r c = None \<and> row_values cols r = Inl (KeyError c)"
proof (induction cols)
  case Nil
  then show ?case by simp
next
  case (Cons a cols)
  show ?case
  proof (cases "r a")
    case None
    then show ?thesis by simp
  next
    case (Some v)
    with Cons.prems have "\<exists>c \<in> set cols. r c = None" by auto
    from Cons.IH [OF this] obtain c where "c \<in> set cols" "r c = None"
      "row_values cols r = Inl (KeyError c)" by blast
    with Some show ?thesis by auto
  qed
qed

lemma first_error_Inl: "first_error E q xs = Inl e \<Longrightarrow> \<not> list_all (storable E q) xs"
  using first_error_ok [of E q xs "()"] by auto

lemma first_error_Inr: "list_all (storable E q) xs \<Longrightarrow> first_error E q xs = Inr ()"
  using first_error_ok [of E q xs "()"] by auto

lemma length_stamped [simp]: "length (stamped E t cols rs) = length rs"
  by (induction rs arbitrary: t) simp_all

lemma executemany_eq:
  "\<not> aborted s \<Longrightarrow> executemany E q batch s =
    (first_error E q batch,
     s\<lparr>s_tables := (s_tables s)(target q := applied E q batch (s_tables s (target q))),
       aborted := \<not> list_all (storable E q) batch, sent := sent s @ [batch]\<rparr>)"
  by (simp add: executemany_def run_batch_eq)

lemma load_loop_view:
  assumes "\<forall>r \<in> set rs. set cols \<subseteq> dom r" and "\<not> aborted s"
  shows "fst (load_loop E n q cols (map Inr rs) batch sub s) =
           (case first_error E q (batch @ stamped E (ticks s) cols rs) of
              Inl e \<Rightarrow> Inl e | Inr u \<Rightarrow> Inr (sub + length batch + length rs))
       \<and> s_tables (snd (load_loop E n q cols (map Inr rs) batch sub s)) =
           (s_tables s)(target q :=
              applied E q (batch @ stamped E (ticks s) cols rs) (s_tables s (target q)))
       \<and> aborted (snd (load_loop E n q cols (map Inr rs) batch sub s)) =
           (\<not> list_all (storable E q) (batch @ stamped E (ticks s) cols rs))
       \<and> s_audit (snd (load_loop E n q cols (map Inr rs) batch sub s)) = s_audit s"
  using assms
proof (induction rs arbitrary: batch sub s)
  case Nil
  show ?case
  proof (cases "batch = []")
    case True
    then show ?thesis using Nil by simp
  next
    case False
    then show ?thesis using Nil
      by (auto simp: executemany_eq first_error_Inr dest: first_error_Inl split: sum.splits)
  qed
next
  case (Cons r rs)
  define v where "v = map (\<lambda>c. the (r c)) cols @ [PTime (clock E (ticks s))]"
  define b where "b = batch @ [v]"
  define rest where "rest = stamped E (Suc (ticks s)) cols rs"
  define T where "T = s_tables s (target q)"
  let ?s1 = "s\<lparr>ticks := Suc (ticks s)\<rparr>"
  have rv: "row_values cols r = Inr (map (\<lambda>c. the (r c)) cols)"
    using Cons.prems by (simp add: row_values_ok)
  have rs_ok: "\<forall>r \<in> set rs. set cols \<subseteq> dom r" using Cons.prems by simp
  have app: "batch @ stamped E (ticks s) cols (r # rs) = b @ rest"
    by (simp add: b_def v_def rest_def)
  have len: "length b = Suc (length batch)" by (simp add: b_def)
  have bne: "b \<noteq> []" by (simp add: b_def)
  show ?case
  proof (cases "length b \<ge> n")
    case False
    have step: "load_loop E n q cols (map Inr (r # rs)) batch sub s = load_loop E n q cols (map Inr rs) b sub ?s1"
      using False [unfolded len] by (simp add: rv utcnow_def Let_def b_def v_def)
    have na: "\<not> aborted ?s1" using Cons.prems by simp
    have "ticks ?s1 = Suc (ticks s)" "s_tables ?s1 = s_tables s" "s_audit ?s1 = s_audit s"
      by simp_all
    note ih = Cons.IH [OF rs_ok na, of b sub, simplified, folded rest_def T_def]
    from ih show ?thesis
      unfolding step app T_def [symmetric] len by (simp split: sum.splits)
  next
    case True
    note big = True
    show ?thesis
    proof (cases "list_all (storable E q) b")
      case False
      then obtain e where fe: "first_error E q b = Inl e"
        using first_error_Inr [of E q b] first_error_ok [of E q b]
        by (cases "first_error E q b") auto
      have step: "load_loop E n q cols (map Inr (r # rs)) batch sub s =
          (Inl e, ?s1\<lparr>s_tables := (s_tables s)(target q := applied E q b T),
             aborted := True, sent := sent s @ [b]\<rparr>)"
        using big [unfolded len] False fe Cons.prems(2)
        by (simp add: rv utcnow_def Let_def executemany_eq b_def [symmetric] v_def [symmetric]
            T_def)
      have "first_error E q (b @ rest) = Inl e" "applied E q (b @ rest) T = applied E q b T"
        "\<not> list_all (storable E q) (b @ rest)"
        using False fe by (simp_all add: first_error_append applied_append)
      then show ?thesis
        unfolding step app T_def [symmetric] by simp
    next
      case True
      then have fe: "first_error E q b = Inr ()" by (rule first_error_Inr)
      define s2 where "s2 = ?s1\<lparr>s_tables := (s_tables s)(target q := applied E q b T),
             aborted := False, sent := sent s @ [b]\<rparr>"
      have step: "load_loop E n q cols (map Inr (r # rs)) batch sub s =
          load_loop E n q cols (map Inr rs) [] (sub + length b) s2"
        using big [unfolded len] True fe Cons.prems(2)
        by (simp add: rv utcnow_def Let_def executemany_eq b_def [symmetric] v_def [symmetric]
            T_def s2_def)
      have na: "\<not> aborted s2" by (simp add: s2_def)
      have s2: "ticks s2 = Suc (ticks s)" "s_audit s2 = s_audit s"
        "s_tables s2 = (s_tables s)(target q := applied E q b T)"
        by (simp_all add: s2_def)
      have comb: "first_error E q (b @ rest) = first_error E q rest"
        "applied E q (b @ rest) T = applied E q rest (applied E q b T)"
        "list_all (storable E q) (b @ rest) = list_all (storable E q) rest"
        using True by (simp_all add: first_error_append applied_append)
      note ih = Cons.IH [OF rs_ok na, of "[]" "sub + length b", unfolded s2, simplified,
          folded rest_def T_def]
      from ih show ?thesis
        unfolding step app comb T_def [symmetric] len
        by (auto split: sum.splits simp: fun_eq_iff)
    qed
  qed
qed

lemma row_values_Inr:
  "row_values cols r = Inr vs \<Longrightarrow> vs = map (\<lambda>c. the (r c)) cols"
  by (induction cols arbitrary: vs) (auto split: option.splits sum.splits)

lemma executemany_sent: "sent (snd (executemany E q batch s)) = sent s @ [batch]"
  by (simp add: executemany_def run_batch_eq Let_def)

lemma executemany_ticks: "ticks (snd (executemany E q batch s)) = ticks s"
  by (simp add: executemany_def run_batch_eq Let_def)

lemma load_loop_sent_prefix:
  "\<exists>k. concat (sent (snd (load_loop E n q cols (map Inr rs @ reader_end err) batch sub s))) =
        concat (sent s) @ take k (batch @ stamped E (ticks s) cols rs)"
proof (induction rs arbitrary: batch sub s)
  case Nil
  show ?case
  proof (cases err)
    case (Some e)
    have "concat (sent (snd (load_loop E n q cols (map Inr [] @ reader_end err) batch sub s))) =
        concat (sent s) @ take 0 (batch @ stamped E (ticks s) cols [])"
      using Some by (simp add: reader_end_def)
    then show ?thesis by blast
  next
    case None
    then have items: "map Inr [] @ reader_end err = ([] :: (error + (string \<rightharpoonup> pyval)) list)"
      by (simp add: reader_end_def)
    have "\<exists>k. concat (sent (snd (load_loop E n q cols [] batch sub s))) =
        concat (sent s) @ take k (batch @ stamped E (ticks s) cols [])"
    proof (cases "batch = []")
      case True
      then show ?thesis by simp
    next
      case False
      obtain res s' where ex: "executemany E q batch s = (res, s')" by fastforce
      have "sent s' = sent s @ [batch]" using executemany_sent [of E q batch s] ex by simp
      then have "concat (sent (snd (load_loop E n q cols [] batch sub s))) =
          concat (sent s) @ take (length batch) (batch @ stamped E (ticks s) cols [])"
        using False ex by (simp split: sum.splits)
      then show ?thesis by blast
    qed
    then show ?thesis unfolding items .
  qed
next
  case (Cons r rs)
  show ?case
  proof (cases "row_values cols r")
    case (Inl e)
    then have "concat (sent (snd (load_loop E n q cols (map Inr (r # rs) @ reader_end err) batch sub s))) =
        concat (sent s) @ take 0 (batch @ stamped E (ticks s) cols (r # rs))"
      by simp
    then show ?thesis by blast
  next
    case (Inr vs)
    define v where "v = map (\<lambda>c. the (r c)) cols @ [PTime (clock E (ticks s))]"
    define b where "b = batch @ [v]"
    define rest where "rest = stamped E (Suc (ticks s)) cols rs"
    define s1 where "s1 = s\<lparr>ticks := Suc (ticks s)\<rparr>"
    have vs: "vs = map (\<lambda>c. the (r c)) cols" using Inr by (rule row_values_Inr)
    have app: "batch @ stamped E (ticks s) cols (r # rs) = b @ rest"
      by (simp add: b_def v_def rest_def)
    have s1: "ticks s1 = Suc (ticks s)" "sent s1 = sent s" by (simp_all add: s1_def)
    have len: "length b = Suc (length batch)" by (simp add: b_def)
    show ?thesis
    proof (cases "length b \<ge> n")
      case False
      have step: "load_loop E n q cols (map Inr (r # rs) @ reader_end err) batch sub s = load_loop E n q cols (map Inr rs @ reader_end err) b sub s1"
        using False [unfolded len] by (simp add: Inr vs utcnow_def Let_def b_def v_def s1_def)
      from Cons.IH [of b sub s1] show ?thesis
        unfolding step app s1 rest_def .
    next
      case True
      obtain res s2 where ex: "executemany E q b s1 = (res, s2)" by fastforce
      have s2: "sent s2 = sent s @ [b]" "ticks s2 = Suc (ticks s)"
        using executemany_sent [of E q b s1] executemany_ticks [of E q b s1] ex s1 by simp_all
      show ?thesis
      proof (cases res)
        case (Inl e)
        have step: "load_loop E n q cols (map Inr (r # rs) @ reader_end err) batch sub s = (Inl e, s2)"
          using True [unfolded len] ex Inl
          by (simp add: Inr vs utcnow_def Let_def b_def [symmetric] v_def [symmetric]
              s1_def [symmetric])
        have "concat (sent s2) = concat (sent s) @ take (length b) (b @ rest)"
          by (simp add: s2)
        then show ?thesis unfolding step app by (metis snd_conv)
      next
        case (Inr u)
        have step: "load_loop E n q cols (map Inr (r # rs) @ reader_end err) batch sub s =
            load_loop E n q cols (map Inr rs @ reader_end err) [] (sub + length b) s2"
          using True [unfolded len] ex Inr
          by (simp add: \<open>row_values cols r = Inr vs\<close> vs utcnow_def Let_def
              b_def [symmetric] v_def [symmetric] s1_def [symmetric])
        from Cons.IH [of "[]" "sub + length b" s2] obtain k where
          "concat (sent (snd (load_loop E n q cols (map Inr rs @ reader_end err) [] (sub + length b) s2))) =
             concat (sent s2) @ take k rest"
          unfolding s2 rest_def by auto
        then have "concat (sent (snd (load_loop E n q cols (map Inr rs @ reader_end err) [] (sub + length b) s2))) =
             concat (sent s) @ take (length b + k) (b @ rest)"
          by (simp add: s2)
        then show ?thesis unfolding step app by blast
      qed
    qed
  qed
qed

lemma chunked_Nil: "chunked n []"
  by (simp add: chunked_def)

lemma chunked_single: "b \<noteq> [] \<Longrightarrow> length b \<le> max n 1 \<Longrightarrow> chunked n [b]"
  by (simp add: chunked_def)

lemma chunked_Cons:
  assumes "length b = max n 1" and "chunked n new"
  shows "chunked n (b # new)"
  unfolding chunked_def
proof (intro conjI ballI allI impI)
  fix x assume "x \<in> set (b # new)"
  then have "x = b \<or> x \<in> set new" by simp
  then show "x \<noteq> []"
  proof
    assume "x = b" with assms(1) show ?thesis by auto
  next
    assume "x \<in> set new" with assms(2) show ?thesis by (simp add: chunked_def)
  qed
  from \<open>x = b \<or> x \<in> set new\<close> show "length x \<le> max n 1"
  proof
    assume "x = b" with assms(1) show ?thesis by simp
  next
    assume "x \<in> set new" with assms(2) show ?thesis by (simp add: chunked_def)
  qed
next
  fix i assume i: "Suc i < length (b # new)"
  show "length ((b # new) ! i) = max n 1"
  proof (cases i)
    case 0
    then show ?thesis using assms(1) by simp
  next
    case (Suc j)
    with i have "Suc j < length new" by simp
    with assms(2) have "length (new ! j) = max n 1" by (simp add: chunked_def)
    with Suc show ?thesis by simp
  qed
qed

lemma loop_postI:
  "ticks s' = ticks s + length rs \<Longrightarrow> sent s' = sent s @ new \<Longrightarrow>
   concat new = batch @ stamped E (ticks s) cols rs \<Longrightarrow> chunked n new \<Longrightarrow>
   loop_post E n cols rs batch s s'"
  unfolding loop_post_def by blast

lemma executemany_res:
  "executemany E q batch s = (res, s2) \<Longrightarrow> sent s2 = sent s @ [batch] \<and> ticks s2 = ticks s"
  using executemany_sent [of E q batch s] executemany_ticks [of E q batch s] by simp

lemma load_loop_Nil_success:
  assumes "load_loop E n q cols [] batch sub s = (Inr m, s')" and "batch \<noteq> []"
  shows "m = sub + length batch \<and> sent s' = sent s @ [batch] \<and> ticks s' = ticks s"
proof -
  obtain res s2 where ex: "executemany E q batch s = (res, s2)" by (cases "executemany E q batch s")
  show ?thesis
  proof (cases res)
    case (Inl e)
    with assms ex show ?thesis by simp
  next
    case (Inr u)
    with assms ex have "m = sub + length batch" "s' = s2" by simp_all
    with executemany_res [OF ex] show ?thesis by simp
  qed
qed

lemma load_loop_Cons_cases:
  assumes "row_values cols r = Inr vs"
  shows "load_loop E n q cols (Inr r # items) batch sub s =
    (if n \<le> length (batch @ [vs @ [PTime (clock E (ticks s))]]) then
       (case executemany E q (batch @ [vs @ [PTime (clock E (ticks s))]])
               (s\<lparr>ticks := Suc (ticks s)\<rparr>) of
          (Inl e, s2) \<Rightarrow> (Inl e, s2)
        | (Inr u, s2) \<Rightarrow>
            load_loop E n q cols items []
              (sub + length (batch @ [vs @ [PTime (clock E (ticks s))]])) s2)
     else load_loop E n q cols items (batch @ [vs @ [PTime (clock E (ticks s))]]) sub
            (s\<lparr>ticks := Suc (ticks s)\<rparr>))"
  using assms by (simp add: utcnow_def Let_def)

lemma load_loop_success:
  assumes "load_loop E n q cols (map Inr rs @ reader_end err) batch sub s = (Inr m, s')"
    and "length batch < max n 1"
  shows "err = None \<and> m = sub + length batch + length rs \<and> loop_post E n cols rs batch s s'"
  using assms
proof (induction rs arbitrary: batch sub s)
  case Nil
  show ?case
  proof (cases err)
    case (Some e)
    with Nil.prems(1) show ?thesis by (simp add: reader_end_def)
  next
    case None
    then have items: "map Inr [] @ reader_end err = ([] :: (error + (string \<rightharpoonup> pyval)) list)"
      by (simp add: reader_end_def)
    note prem1 = Nil.prems(1) [unfolded items]
    show ?thesis
    proof (cases "batch = []")
      case True
      with prem1 have "m = sub" "s' = s" by simp_all
      moreover have "loop_post E n cols [] [] s s"
        by (rule loop_postI [where new = "[]"]) (simp_all add: chunked_Nil)
      ultimately show ?thesis using True None by simp
    next
      case False
      from load_loop_Nil_success [OF prem1 False]
      have m: "m = sub + length batch" and s': "sent s' = sent s @ [batch]" "ticks s' = ticks s"
        by simp_all
      have "length batch \<le> max n 1" using Nil.prems(2) by simp
      then have "chunked n [batch]" using False by (intro chunked_single)
      then have "loop_post E n cols [] batch s s'"
        by (intro loop_postI [where new = "[batch]"]) (simp_all add: s')
      with m None show ?thesis by simp
    qed
  qed
next
  case (Cons r rs)
  have items: "map Inr (r # rs) @ reader_end err = Inr r # (map Inr rs @ reader_end err)"
    by simp
  note prem1 = Cons.prems(1) [unfolded items]
  from prem1 obtain vs where rv: "row_values cols r = Inr vs"
    by (cases "row_values cols r") simp_all
  define b where "b = batch @ [vs @ [PTime (clock E (ticks s))]]"
  define s1 where "s1 = s\<lparr>ticks := Suc (ticks s)\<rparr>"
  define rest where "rest = stamped E (Suc (ticks s)) cols rs"
  have vs: "vs = map (\<lambda>c. the (r c)) cols" using rv by (rule row_values_Inr)
  have app: "batch @ stamped E (ticks s) cols (r # rs) = b @ rest"
    by (simp add: b_def vs rest_def)
  have s1: "ticks s1 = Suc (ticks s)" "sent s1 = sent s" by (simp_all add: s1_def)
  have len: "length b = Suc (length batch)" by (simp add: b_def)
  note cases = load_loop_Cons_cases [OF rv, where E = E and n = n and q = q
      and items = "map Inr rs @ reader_end err" and batch = batch and sub = sub and s = s,
      folded b_def s1_def]
  show ?case
  proof (cases "n \<le> length b")
    case False
    have step: "load_loop E n q cols (map Inr rs @ reader_end err) b sub s1 = (Inr m, s')"
      using prem1 False unfolding cases by simp
    have lt: "length b < max n 1" using False by simp
    from Cons.IH [OF step lt] have en: "err = None" and m: "m = sub + length b + length rs"
      and post: "loop_post E n cols rs b s1 s'" by simp_all
    from post obtain new where t: "ticks s' = ticks s1 + length rs"
      and new: "sent s' = sent s1 @ new" "concat new = b @ stamped E (ticks s1) cols rs"
        "chunked n new"
      unfolding loop_post_def by blast
    have "loop_post E n cols (r # rs) batch s s'"
    proof (rule loop_postI [where new = new])
      show "ticks s' = ticks s + length (r # rs)" using t s1 by simp
      show "sent s' = sent s @ new" using new(1) s1 by simp
      show "concat new = batch @ stamped E (ticks s) cols (r # rs)"
        using new(2) unfolding app s1 rest_def by simp
      show "chunked n new" by (rule new(3))
    qed
    with en m len show ?thesis by simp
  next
    case True
    obtain res s2 where ex: "executemany E q b s1 = (res, s2)"
      by (cases "executemany E q b s1")
    have s2: "sent s2 = sent s @ [b]" "ticks s2 = Suc (ticks s)"
      using executemany_res [OF ex] s1 by simp_all
    have lb: "length b = max n 1" using True Cons.prems(2) len by simp
    show ?thesis
    proof (cases res)
      case (Inl e)
      with prem1 True ex show ?thesis unfolding cases by simp
    next
      case (Inr u)
      have step: "load_loop E n q cols (map Inr rs @ reader_end err) [] (sub + length b) s2
          = (Inr m, s')"
        using prem1 True ex Inr unfolding cases by simp
      have lt: "length ([]::pyval list list) < max n 1" by simp
      from Cons.IH [OF step lt] have en: "err = None" and m: "m = sub + length b + length rs"
        and post: "loop_post E n cols rs [] s2 s'" by simp_all
      from post obtain new where t: "ticks s' = ticks s2 + length rs"
        and new: "sent s' = sent s2 @ new" "concat new = [] @ stamped E (ticks s2) cols rs"
          "chunked n new"
        unfolding loop_post_def by blast
      have "loop_post E n cols (r # rs) batch s s'"
      proof (rule loop_postI [where new = "b # new"])
        show "ticks s' = ticks s + length (r # rs)" using t s2 by simp
        show "sent s' = sent s @ b # new" using new(1) s2 by simp
        show "concat (b # new) = batch @ stamped E (ticks s) cols (r # rs)"
          using new(2) unfolding app s2 rest_def by simp
        show "chunked n (b # new)" using lb new(3) by (rule chunked_Cons)
      qed
      with en m len show ?thesis by simp
    qed
  qed
qed

lemma fold_upd_apply:
  "fold (\<lambda>key d. d(key \<mapsto> v)) ks d c = (if c \<in> set ks then Some v else d c)"
  by (induction ks arbitrary: d) auto

lemma dom_dict_row: "dom (dict_row fieldnames line) = set fieldnames"
proof -
  have "dom (map_of (rev (zip fieldnames (map PStr line)))) = set (take (length line) fieldnames)"
  proof -
    have "map fst (zip fieldnames (map PStr line)) = take (length line) fieldnames"
      by (simp add: map_fst_zip_take min_def)
    then have "fst ` set (zip fieldnames (map PStr line)) = set (take (length line) fieldnames)"
      by (metis set_map)
    then show ?thesis by (simp add: dom_map_of_conv_image_fst)
  qed
  moreover have "dom (dict_row fieldnames line) =
      dom (map_of (rev (zip fieldnames (map PStr line)))) \<union> set (drop (length line) fieldnames)"
    by (auto simp: dict_row_def fold_upd_apply dom_def)
  moreover have "set (take (length line) fieldnames) \<union> set (drop (length line) fieldnames)
      = set fieldnames"
    by (metis append_take_drop_id set_append)
  ultimately show ?thesis by simp
qed

lemma dict_row_short:
  "c \<in> set (drop (length line) fieldnames) \<Longrightarrow> dict_row fieldnames line c = Some PNone"
  by (simp add: dict_row_def fold_upd_apply)

lemma DictReader_dom:
  "r \<in> set (DictReader (fieldnames # rest)) \<Longrightarrow> dom r = set fieldnames"
proof -
  assume "r \<in> set (DictReader (fieldnames # rest))"
  then obtain line where "r = dict_row fieldnames line" by (auto simp: DictReader_def)
  then show ?thesis by (simp add: dom_dict_row)
qed

lemma DictReader_Nil [simp]: "DictReader [] = []"
  by (simp add: DictReader_def)

lemma load_loop_unreadable:
  "row_values cols r = Inl e \<Longrightarrow> load_loop E n q cols (Inr r # items) batch sub s = (Inl e, s)"
  by simp

lemma merge_row_key:
  "r (conflict q) = ex (conflict q) \<Longrightarrow> merge_row q ex r (conflict q) = r (conflict q)"
  by (simp add: merge_row_def)

lemma key_mem: "(\<exists>r \<in> set T. r k = v) \<longleftrightarrow> v \<in> set (map (\<lambda>r. r k) T)"
  by (induction T) auto

lemma length_upsert_row:
  "length (upsert_row q ex T) =
    (if ex (conflict q) \<in> set (map (\<lambda>r. r (conflict q)) T) then length T else Suc (length T))"
  by (simp add: upsert_row_def key_mem)

lemma keys_upsert_row:
  "map (\<lambda>r. r (conflict q)) (upsert_row q ex T) =
    (if ex (conflict q) \<in> set (map (\<lambda>r. r (conflict q)) T)
     then map (\<lambda>r. r (conflict q)) T else map (\<lambda>r. r (conflict q)) T @ [ex (conflict q)])"
proof (cases "ex (conflict q) \<in> set (map (\<lambda>r. r (conflict q)) T)")
  case True
  then have ex: "\<exists>r \<in> set T. r (conflict q) = ex (conflict q)" by (simp add: key_mem)
  have "map (\<lambda>r. r (conflict q))
          (map (\<lambda>r. if r (conflict q) = ex (conflict q) then merge_row q ex r else r) T)
        = map (\<lambda>r. r (conflict q)) T"
    by (induction T) (simp_all add: merge_row_key)
  with True ex show ?thesis by (simp add: upsert_row_def)
next
  case False
  then have "\<not> (\<exists>r \<in> set T. r (conflict q) = ex (conflict q))" by (simp add: key_mem)
  with False show ?thesis by (simp add: upsert_row_def)
qed

lemma distinct_upsert_row:
  "distinct (map (\<lambda>r. r (conflict q)) T) \<Longrightarrow>
   distinct (map (\<lambda>r. r (conflict q)) (upsert_row q ex T))"
  unfolding keys_upsert_row by simp

lemma nth_upsert_row:
  "i < length T \<Longrightarrow> upsert_row q ex T ! i =
     (if (T ! i) (conflict q) = ex (conflict q) then merge_row q ex (T ! i) else T ! i)"
  by (auto simp: upsert_row_def nth_append)

lemma mem_upsert_row:
  "r' \<in> set (upsert_row q ex T) \<Longrightarrow>
     (r' (conflict q) = ex (conflict q) \<and> (\<forall>c \<in> set (updates q). r' c = ex c)) \<or>
     (r' (conflict q) \<noteq> ex (conflict q) \<and> r' \<in> set T)"
  by (auto simp: upsert_row_def merge_row_def split: if_splits)

lemma key_in_upsert_row:
  "ex (conflict q) \<in> set (map (\<lambda>r. r (conflict q)) (upsert_row q ex T))"
  unfolding keys_upsert_row by simp

text \<open>Folding over a list of proposed rows.\<close>

lemma fold_snoc: "fold f (xs @ [x]) a = f x (fold f xs a)"
  by simp

lemma distinct_fold_upsert:
  "distinct (map (\<lambda>r. r (conflict q)) T) \<Longrightarrow>
   distinct (map (\<lambda>r. r (conflict q)) (fold (upsert_row q) exs T))"
  by (induction exs arbitrary: T) (simp_all add: distinct_upsert_row)

lemma length_fold_upsert_ge: "length T \<le> length (fold (upsert_row q) exs T)"
proof (induction exs arbitrary: T)
  case Nil
  show ?case by simp
next
  case (Cons ex exs)
  have "length T \<le> length (upsert_row q ex T)" by (simp add: length_upsert_row)
  also have "\<dots> \<le> length (fold (upsert_row q) exs (upsert_row q ex T))" by (rule Cons.IH)
  finally show ?case by simp
qed

lemma nth_fold_upsert_keep:
  "i < length T \<Longrightarrow>
     (fold (upsert_row q) exs T ! i) (conflict q) = (T ! i) (conflict q) \<and>
     (\<forall>c. c \<notin> set (updates q) \<longrightarrow> (fold (upsert_row q) exs T ! i) c = (T ! i) c)"
proof (induction exs arbitrary: T)
  case Nil
  show ?case by simp
next
  case (Cons ex exs)
  have lt: "i < length (upsert_row q ex T)" using Cons.prems by (simp add: length_upsert_row)
  have step: "(upsert_row q ex T ! i) (conflict q) = (T ! i) (conflict q) \<and>
     (\<forall>c. c \<notin> set (updates q) \<longrightarrow> (upsert_row q ex T ! i) c = (T ! i) c)"
    using Cons.prems by (simp add: nth_upsert_row merge_row_def)
  from Cons.IH [OF lt] step show ?case by simp
qed

lemma nth_fold_upsert_untouched:
  "i < length T \<Longrightarrow> (T ! i) (conflict q) \<notin> (\<lambda>ex. ex (conflict q)) ` set exs \<Longrightarrow>
     fold (upsert_row q) exs T ! i = T ! i"
proof (induction exs arbitrary: T)
  case Nil
  show ?case by simp
next
  case (Cons ex exs)
  have lt: "i < length (upsert_row q ex T)" using Cons.prems by (simp add: length_upsert_row)
  have same: "upsert_row q ex T ! i = T ! i"
    using Cons.prems by (auto simp: nth_upsert_row)
  have "(upsert_row q ex T ! i) (conflict q) \<notin> (\<lambda>ex. ex (conflict q)) ` set exs"
    using Cons.prems same by auto
  from Cons.IH [OF lt this] same show ?case by simp
qed

lemma keys_fold_upsert:
  "set (map (\<lambda>r. r (conflict q)) (fold (upsert_row q) exs T)) =
     set (map (\<lambda>r. r (conflict q)) T) \<union> (\<lambda>ex. ex (conflict q)) ` set exs"
proof (induction exs arbitrary: T)
  case Nil
  show ?case by simp
next
  case (Cons ex exs)
  have "set (map (\<lambda>r. r (conflict q)) (upsert_row q ex T)) =
      insert (ex (conflict q)) (set (map (\<lambda>r. r (conflict q)) T))"
    unfolding keys_upsert_row by auto
  with Cons.IH [of "upsert_row q ex T"] show ?case by auto
qed

lemma length_fold_upsert_same:
  "(\<lambda>ex. ex (conflict q)) ` set exs \<subseteq> set (map (\<lambda>r. r (conflict q)) T) \<Longrightarrow>
     length (fold (upsert_row q) exs T) = length T"
proof (induction exs arbitrary: T)
  case Nil
  show ?case by simp
next
  case (Cons ex exs)
  have in_T: "ex (conflict q) \<in> set (map (\<lambda>r. r (conflict q)) T)" using Cons.prems by auto
  then have keys: "map (\<lambda>r. r (conflict q)) (upsert_row q ex T) = map (\<lambda>r. r (conflict q)) T"
    unfolding keys_upsert_row by simp
  have "(\<lambda>ex. ex (conflict q)) ` set exs
      \<subseteq> set (map (\<lambda>r. r (conflict q)) (upsert_row q ex T))"
    unfolding keys using Cons.prems by auto
  from Cons.IH [OF this] in_T show ?case by (simp add: length_upsert_row)
qed

text \<open>The last proposed row for a key decides the columns of the \<open>SET\<close> list.\<close>

lemma fold_upsert_last_wins:
  assumes "r' \<in> set (fold (upsert_row q) exs T)"
    and "j < length exs" and "(exs ! j) (conflict q) = r' (conflict q)"
    and "\<forall>j'. j < j' \<and> j' < length exs \<longrightarrow> (exs ! j') (conflict q) \<noteq> r' (conflict q)"
  shows "\<forall>c \<in> set (updates q). r' c = (exs ! j) c"
  using assms
proof (induction exs arbitrary: r' rule: rev_induct)
  case Nil
  then show ?case by simp
next
  case (snoc ex exs)
  from snoc.prems(1) have mem: "r' \<in> set (upsert_row q ex (fold (upsert_row q) exs T))"
    by simp
  show ?case
  proof (cases "j = length exs")
    case True
    then have exj: "(exs @ [ex]) ! j = ex" by simp
    with snoc.prems(3) have "r' (conflict q) = ex (conflict q)" by simp
    with mem_upsert_row [OF mem] have "\<forall>c \<in> set (updates q). r' c = ex c" by auto
    with exj show ?thesis by simp
  next
    case False
    with snoc.prems(2) have j: "j < length exs" by simp
    then have exj: "(exs @ [ex]) ! j = exs ! j" by (simp add: nth_append)
    have "ex (conflict q) \<noteq> r' (conflict q)"
      using snoc.prems(4) [rule_format, of "length exs"] j by simp
    with mem_upsert_row [OF mem] have r'_in: "r' \<in> set (fold (upsert_row q) exs T)" by auto
    have later: "\<forall>j'. j < j' \<and> j' < length exs \<longrightarrow> (exs ! j') (conflict q) \<noteq> r' (conflict q)"
    proof (intro allI impI)
      fix j' assume j': "j < j' \<and> j' < length exs"
      then have "((exs @ [ex]) ! j') (conflict q) \<noteq> r' (conflict q)"
        using snoc.prems(4) [rule_format, of j'] by simp
      with j' show "(exs ! j') (conflict q) \<noteq> r' (conflict q)" by (simp add: nth_append)
    qed
    have "(exs ! j) (conflict q) = r' (conflict q)" using snoc.prems(3) exj by simp
    from snoc.IH [OF r'_in j this later] exj show ?thesis by simp
  qed
qed

lemma last_index_exists:
  assumes "k \<in> f ` set xs"
  shows "\<exists>j < length xs. f (xs ! j) = k \<and> (\<forall>j'. j < j' \<and> j' < length xs \<longrightarrow> f (xs ! j') \<noteq> k)"
  using assms
proof (induction xs rule: rev_induct)
  case Nil
  then show ?case by simp
next
  case (snoc x xs)
  show ?case
  proof (cases "f x = k")
    case True
    have "length xs < length (xs @ [x]) \<and> f ((xs @ [x]) ! length xs) = k \<and>
        (\<forall>j'. length xs < j' \<and> j' < length (xs @ [x]) \<longrightarrow> f ((xs @ [x]) ! j') \<noteq> k)"
      using True by auto
    then show ?thesis by blast
  next
    case False
    with snoc.prems have "k \<in> f ` set xs" by auto
    from snoc.IH [OF this] obtain j where j: "j < length xs" "f (xs ! j) = k"
      "\<forall>j'. j < j' \<and> j' < length xs \<longrightarrow> f (xs ! j') \<noteq> k" by blast
    have "\<forall>j'. j < j' \<and> j' < length (xs @ [x]) \<longrightarrow> f ((xs @ [x]) ! j') \<noteq> k"
    proof (intro allI impI)
      fix j' assume j': "j < j' \<and> j' < length (xs @ [x])"
      show "f ((xs @ [x]) ! j') \<noteq> k"
      proof (cases "j' < length xs")
        case True
        with j(3) j' show ?thesis by (simp add: nth_append)
      next
        case False
        with j' have "j' = length xs" by simp
        with \<open>f x \<noteq> k\<close> show ?thesis by simp
      qed
    qed
    moreover have "j < length (xs @ [x])" "f ((xs @ [x]) ! j) = k"
      using j by (simp_all add: nth_append)
    ultimately show ?thesis by blast
  qed
qed

lemma store_value_col: "c \<noteq> ''_ingested_at'' \<Longrightarrow> store_value E t c v = coerce E t c v"
  by (simp add: store_value_def split: pyval.splits)

lemma store_value_ts: "store_value E t ''_ingested_at'' (PTime n) = Some (PTime n)"
  by (simp add: store_value_def)

lemma store_values_length:
  "store_values E t cs vs = Some ws \<Longrightarrow> length vs = length cs \<and> length ws = length cs"
  by (induction E t cs vs arbitrary: ws rule: store_values.induct)
     (auto split: option.splits)

lemma store_values_nth:
  "store_values E t cs vs = Some ws \<Longrightarrow> i < length cs \<Longrightarrow>
     store_value E t (cs ! i) (vs ! i) = Some (ws ! i)"
proof (induction E t cs vs arbitrary: ws i rule: store_values.induct)
  case (2 E t c cs v vs)
  from "2.prems"(1) obtain w ws' where w: "store_value E t c v = Some w"
    and ws': "store_values E t cs vs = Some ws'" and ws: "ws = w # ws'"
    by (auto split: option.splits)
  show ?case
  proof (cases i)
    case 0
    with w ws show ?thesis by simp
  next
    case (Suc k)
    with "2.prems"(2) have "k < length cs" by simp
    from "2.IH" [OF w ws' this] Suc ws show ?thesis by simp
  qed
qed simp_all

lemma store_values_all:
  "length vs = length cs \<Longrightarrow> \<forall>i < length cs. store_value E t (cs ! i) (vs ! i) \<noteq> None \<Longrightarrow>
     \<exists>ws. store_values E t cs vs = Some ws"
proof (induction E t cs vs rule: store_values.induct)
  case (2 E t c cs v vs)
  from "2.prems"(2) [rule_format, of 0] obtain w where w: "store_value E t c v = Some w"
    by auto
  have "\<forall>i < length cs. store_value E t (cs ! i) (vs ! i) \<noteq> None"
  proof (intro allI impI)
    fix i assume "i < length cs"
    then show "store_value E t (cs ! i) (vs ! i) \<noteq> None"
      using "2.prems"(2) [rule_format, of "Suc i"] by simp
  qed
  with "2.IH" [OF w] "2.prems"(1) obtain ws where "store_values E t cs vs = Some ws" by auto
  with w show ?case by simp
qed simp_all

lemma store_values_snoc:
  "length vs = length cs \<Longrightarrow> store_values E t (cs @ [c]) (vs @ [v]) =
     (case store_values E t cs vs of
        None \<Rightarrow> None
      | Some ws \<Rightarrow> (case store_value E t c v of None \<Rightarrow> None | Some w \<Rightarrow> Some (ws @ [w])))"
  by (induction E t cs vs rule: store_values.induct) (auto split: option.splits)

lemma excluded_upsert_sql:
  "excluded_row E (upsert_sql t cols pk) (vs @ [PTime now]) =
    (if length vs \<noteq> length cols \<or> \<not> distinct cols \<or> ''_ingested_at'' \<in> set cols
     then Inl ProgrammingError
     else case store_values E t cols vs of
            None \<Rightarrow> Inl DataError
          | Some ws \<Rightarrow> Inr (map_of (zip (cols @ [''_ingested_at'']) (ws @ [PTime now]))))"
  by (auto simp: excluded_row_def upsert_sql_def store_values_snoc store_value_ts
      split: option.splits)

lemma map_of_zip_snoc:
  "length cols = length ws \<Longrightarrow> map_of (zip (cols @ [a]) (ws @ [w])) c =
     (case map_of (zip cols ws) c of
        Some v \<Rightarrow> Some v
      | None \<Rightarrow> if c = a then Some w else None)"
  by (induction cols ws rule: list_induct2) auto

lemma map_of_zip_None:
  "length cols = length ws \<Longrightarrow> (map_of (zip cols ws) c = None) = (c \<notin> set cols)"
  by (induction cols ws rule: list_induct2) auto

lemma map_of_zip_snoc_old:
  "length cols = length ws \<Longrightarrow> c \<in> set cols \<Longrightarrow>
     map_of (zip (cols @ [a]) (ws @ [w])) c = map_of (zip cols ws) c"
proof -
  assume len: "length cols = length ws"
  note eq = map_of_zip_snoc [OF len, of a w c] and none = map_of_zip_None [OF len, of c]
  assume "c \<in> set cols"
  with none show ?thesis unfolding eq by (auto split: option.splits)
qed

lemma map_of_zip_snoc_new:
  "length cols = length ws \<Longrightarrow> c \<notin> set cols \<Longrightarrow>
     map_of (zip (cols @ [a]) (ws @ [w])) c = (if c = a then Some w else None)"
proof -
  assume len: "length cols = length ws"
  note eq = map_of_zip_snoc [OF len, of a w c] and none = map_of_zip_None [OF len, of c]
  assume "c \<notin> set cols"
  with none show ?thesis unfolding eq by (auto split: option.splits)
qed

lemma stored_column:
  assumes "distinct cols" and "''_ingested_at'' \<notin> set cols"
    and "store_values E t cols (map (\<lambda>c. the (r c)) cols) = Some ws" and "c \<in> set cols"
  shows "map_of (zip cols ws) c = coerce E t c (the (r c))"
proof -
  from assms(4) obtain i where i: "i < length cols" "cols ! i = c"
    by (auto simp: in_set_conv_nth)
  have len: "length ws = length cols" using store_values_length [OF assms(3)] by simp
  have "map_of (zip cols ws) (cols ! i) = Some (ws ! i)"
    using len assms(1) i(1) by (intro map_of_zip_nth) simp_all
  moreover have "store_value E t (cols ! i) (map (\<lambda>c. the (r c)) cols ! i) = Some (ws ! i)"
    using store_values_nth [OF assms(3) i(1)] .
  moreover have "cols ! i \<noteq> ''_ingested_at''" using assms(2) assms(4) i by metis
  ultimately show ?thesis using i by (simp add: store_value_col)
qed

lemma store_values_record:
  assumes "''_ingested_at'' \<notin> set cols"
  shows "(\<exists>ws. store_values E t cols (map (\<lambda>c. the (r c)) cols) = Some ws) \<longleftrightarrow>
         (\<forall>c \<in> set cols. coerce E t c (the (r c)) \<noteq> None)"
proof
  assume "\<exists>ws. store_values E t cols (map (\<lambda>c. the (r c)) cols) = Some ws"
  then obtain ws where ws: "store_values E t cols (map (\<lambda>c. the (r c)) cols) = Some ws" ..
  show "\<forall>c \<in> set cols. coerce E t c (the (r c)) \<noteq> None"
  proof
    fix c assume "c \<in> set cols"
    then obtain i where i: "i < length cols" "cols ! i = c" by (auto simp: in_set_conv_nth)
    have "c \<noteq> ''_ingested_at''" using assms \<open>c \<in> set cols\<close> by auto
    with store_values_nth [OF ws i(1)] i show "coerce E t c (the (r c)) \<noteq> None"
      by (simp add: store_value_col)
  qed
next
  assume all: "\<forall>c \<in> set cols. coerce E t c (the (r c)) \<noteq> None"
  have "\<forall>i < length cols.
      store_value E t (cols ! i) (map (\<lambda>c. the (r c)) cols ! i) \<noteq> None"
  proof (intro allI impI)
    fix i assume i: "i < length cols"
    then have "cols ! i \<in> set cols" by simp
    moreover from this have "cols ! i \<noteq> ''_ingested_at''" using assms by auto
    ultimately show "store_value E t (cols ! i) (map (\<lambda>c. the (r c)) cols ! i) \<noteq> None"
      using all i by (simp add: store_value_col)
  qed
  then show "\<exists>ws. store_values E t cols (map (\<lambda>c. the (r c)) cols) = Some ws"
    by (intro store_values_all) simp_all
qed

lemma excluded_record:
  assumes "wf_desc cols pk" and "acceptable E t cols pk r"
  shows "\<exists>ex. excluded_row E (upsert_sql t cols pk) (map (\<lambda>c. the (r c)) cols @ [PTime now])
             = Inr ex \<and>
           (\<forall>c \<in> set cols. ex c = coerce E t c (the (r c))) \<and>
           ex ''_ingested_at'' = Some (PTime now) \<and>
           (\<forall>c. c \<notin> set cols \<and> c \<noteq> ''_ingested_at'' \<longrightarrow> ex c = None)"
proof -
  from assms(1) have d: "distinct cols" and ts: "''_ingested_at'' \<notin> set cols"
    by (simp_all add: wf_desc_def)
  from assms(2) have "\<forall>c \<in> set cols. coerce E t c (the (r c)) \<noteq> None"
    by (simp add: acceptable_def)
  with store_values_record [OF ts, of E t r] obtain ws
    where ws: "store_values E t cols (map (\<lambda>c. the (r c)) cols) = Some ws" by blast
  have len: "length cols = length ws" using store_values_length [OF ws] by simp
  define ex where "ex = map_of (zip (cols @ [''_ingested_at'']) (ws @ [PTime now]))"
  have 1: "excluded_row E (upsert_sql t cols pk) (map (\<lambda>c. the (r c)) cols @ [PTime now])
      = Inr ex"
    using d ts ws by (simp add: excluded_upsert_sql ex_def)
  have 2: "\<forall>c \<in> set cols. ex c = coerce E t c (the (r c))"
  proof
    fix c assume c: "c \<in> set cols"
    have "ex c = map_of (zip cols ws) c" unfolding ex_def using len c by (rule map_of_zip_snoc_old)
    with stored_column [OF d ts ws c] show "ex c = coerce E t c (the (r c))" by simp
  qed
  have 3: "ex ''_ingested_at'' = Some (PTime now)"
    unfolding ex_def using map_of_zip_snoc_new [OF len ts] by simp
  have 4: "\<forall>c. c \<notin> set cols \<and> c \<noteq> ''_ingested_at'' \<longrightarrow> ex c = None"
  proof (intro allI impI)
    fix c assume c: "c \<notin> set cols \<and> c \<noteq> ''_ingested_at''"
    then have "c \<notin> set cols" by simp
    from map_of_zip_snoc_new [OF len this] c show "ex c = None" unfolding ex_def by simp
  qed
  from 1 2 3 4 show ?thesis by blast
qed

lemma storable_record:
  assumes "wf_desc cols pk" and "set cols \<subseteq> dom r"
  shows "storable E (upsert_sql t cols pk) (map (\<lambda>c. the (r c)) cols @ [PTime now]) \<longleftrightarrow>
         acceptable E t cols pk r"
proof
  assume acc: "acceptable E t cols pk r"
  from excluded_record [OF assms(1) acc, of now] obtain ex where
    ex: "excluded_row E (upsert_sql t cols pk) (map (\<lambda>c. the (r c)) cols @ [PTime now]) = Inr ex"
    and v: "\<forall>c \<in> set cols. ex c = coerce E t c (the (r c))" by blast
  have pk: "pk \<in> set cols" using assms(1) by (simp add: wf_desc_def)
  with v have "ex pk = coerce E t pk (the (r pk))" by simp
  moreover have "coerce E t pk (the (r pk)) \<noteq> None" "coerce E t pk (the (r pk)) \<noteq> Some PNone"
    using acc pk by (simp_all add: acceptable_def)
  ultimately show "storable E (upsert_sql t cols pk) (map (\<lambda>c. the (r c)) cols @ [PTime now])"
    using ex by (auto simp: storable_def upsert_sql_def split: option.splits)
next
  assume st: "storable E (upsert_sql t cols pk) (map (\<lambda>c. the (r c)) cols @ [PTime now])"
  from assms(1) have d: "distinct cols" and ts: "''_ingested_at'' \<notin> set cols"
    and pk: "pk \<in> set cols" by (simp_all add: wf_desc_def)
  from st obtain ex where
    ex: "excluded_row E (upsert_sql t cols pk) (map (\<lambda>c. the (r c)) cols @ [PTime now]) = Inr ex"
    and key: "ex pk \<noteq> None" "ex pk \<noteq> Some PNone"
    by (auto simp: storable_def upsert_sql_def split: sum.splits option.splits)
  from ex obtain ws where ws: "store_values E t cols (map (\<lambda>c. the (r c)) cols) = Some ws"
    and exd: "ex = map_of (zip (cols @ [''_ingested_at'']) (ws @ [PTime now]))"
    by (auto simp: excluded_upsert_sql split: if_splits option.splits)
  have all: "\<forall>c \<in> set cols. coerce E t c (the (r c)) \<noteq> None"
    using store_values_record [OF ts, of E t r] ws by blast
  have len: "length cols = length ws" using store_values_length [OF ws] by simp
  have "ex pk = map_of (zip cols ws) pk" unfolding exd using len pk by (rule map_of_zip_snoc_old)
  with stored_column [OF d ts ws pk] have "ex pk = coerce E t pk (the (r pk))" by simp
  with key all assms(2) show "acceptable E t cols pk r" by (simp add: acceptable_def)
qed

lemma the_excluded_record:
  assumes "wf_desc cols pk" and "acceptable E t cols pk r"
  shows "the_excluded E (upsert_sql t cols pk) (map (\<lambda>c. the (r c)) cols @ [PTime now]) c =
    (if c \<in> set cols then coerce E t c (the (r c))
     else if c = ''_ingested_at'' then Some (PTime now) else None)"
proof -
  from excluded_record [OF assms, of now] obtain ex where
    "excluded_row E (upsert_sql t cols pk) (map (\<lambda>c. the (r c)) cols @ [PTime now]) = Inr ex"
    "\<forall>c \<in> set cols. ex c = coerce E t c (the (r c))"
    "ex ''_ingested_at'' = Some (PTime now)"
    "\<forall>c. c \<notin> set cols \<and> c \<noteq> ''_ingested_at'' \<longrightarrow> ex c = None" by blast
  then show ?thesis by (simp add: the_excluded_def)
qed

lemma upsert_sql_simps [simp]:
  "target (upsert_sql t cols pk) = t" "conflict (upsert_sql t cols pk) = pk"
  "set (updates (upsert_sql t cols pk)) = (set cols - {pk}) \<union> {''_ingested_at''}"
  by (auto simp: upsert_sql_def)

lemma chunk_count:
  assumes "0 < N" and "\<forall>b \<in> set new. b \<noteq> [] \<and> length b \<le> N"
    and "\<forall>i. Suc i < length new \<longrightarrow> length (new ! i) = N"
  shows "length new = (length (concat new) + N - 1) div N"
  using assms(2,3)
proof (induction new)
  case Nil
  show ?case using assms(1) by simp
next
  case (Cons b new)
  show ?case
  proof (cases new)
    case Nil
    have "1 \<le> length b" "length b \<le> N" using Cons.prems(1) by (auto simp: Suc_le_eq)
    then have "(length b + N - 1) div N = 1"
      using assms(1) by (intro div_nat_eqI) auto
    then show ?thesis using Nil by simp
  next
    case (Cons c rest)
    have lb: "length b = N" using Cons.prems(2) [rule_format, of 0] Cons by simp
    have 1: "\<forall>b \<in> set new. b \<noteq> [] \<and> length b \<le> N" using Cons.prems(1) by simp
    have 2: "\<forall>i. Suc i < length new \<longrightarrow> length (new ! i) = N"
    proof (intro allI impI)
      fix i assume "Suc i < length new"
      then show "length (new ! i) = N" using Cons.prems(2) [rule_format, of "Suc i"] by simp
    qed
    have ih: "length new = (length (concat new) + N - 1) div N"
      using Cons.IH [OF 1 2] .
    have "(N + length (concat new) + N - 1) div N = Suc ((length (concat new) + N - 1) div N)"
      using assms(1) div_add_self1 [of N "length (concat new) + N - 1"] by (simp add: add.assoc)
    then show ?thesis using ih lb by simp
  qed
qed

lemma check_files_missing:
  "(t, f, c, p) \<in> set fs \<Longrightarrow> files E f = None \<Longrightarrow>
     \<exists>t' f' c' p'. (t', f', c', p') \<in> set fs \<and> files E f' = None \<and>
        check_files E fs = Some (FileNotFoundError t')"
proof (induction fs)
  case Nil
  then show ?case by simp
next
  case (Cons x fs)
  obtain t0 f0 c0 p0 where x: "x = (t0, f0, c0, p0)" by (cases x)
  show ?case
  proof (cases "files E f0 = None")
    case True
    then have "(t0, f0, c0, p0) \<in> set (x # fs) \<and> files E f0 = None \<and>
        check_files E (x # fs) = Some (FileNotFoundError t0)"
      by (simp add: x)
    then show ?thesis by blast
  next
    case False
    with Cons.prems x have "(t, f, c, p) \<in> set fs" by auto
    from Cons.IH [OF this Cons.prems(2)] obtain t' f' c' p' where
      "(t', f', c', p') \<in> set fs" "files E f' = None"
      "check_files E fs = Some (FileNotFoundError t')" by blast
    with False have "(t', f', c', p') \<in> set (x # fs) \<and> files E f' = None \<and>
        check_files E (x # fs) = Some (FileNotFoundError t')"
      by (auto simp: x)
    then show ?thesis by blast
  qed
qed

lemma check_files_None:
  "check_files E fs = None \<Longrightarrow> (t, f, c, p) \<in> set fs \<Longrightarrow> files E f \<noteq> None"
  using check_files_missing [of t f c p fs E] by auto

lemma check_files_present:
  "\<forall>x \<in> set fs. files E (fst (snd x)) \<noteq> None \<Longrightarrow> check_files E fs = None"
  by (induction fs) auto

lemma DictReader_readable_cases:
  "(\<forall>r \<in> set (DictReader lines). set cols \<subseteq> dom r) \<or>
   (\<exists>r rs c. DictReader lines = r # rs \<and> c \<in> set cols \<and> r c = None \<and>
      row_values cols r = Inl (KeyError c))"
proof (cases "\<forall>r \<in> set (DictReader lines). set cols \<subseteq> dom r")
  case True
  then show ?thesis by simp
next
  case False
  then obtain r0 where r0: "r0 \<in> set (DictReader lines)" "\<not> set cols \<subseteq> dom r0" by blast
  then obtain h rest where lines: "lines = h # rest" by (cases lines) simp_all
  from r0(1) obtain r rs where rs: "DictReader lines = r # rs" by (cases "DictReader lines") auto
  then have "r \<in> set (DictReader (h # rest))" using lines by simp
  then have "dom r = set h" by (rule DictReader_dom)
  moreover have "dom r0 = set h" using r0(1) lines DictReader_dom by blast
  ultimately have "\<not> set cols \<subseteq> dom r" using r0(2) by simp
  then have "\<exists>c \<in> set cols. r c = None" by (auto simp: dom_def)
  from row_values_err [OF this] rs show ?thesis by blast
qed

lemma load_table_chunked_unreadable:
  assumes "files E p = Some lines" and "DictReader lines = r # rs"
    and "row_values cols r = Inl e"
  shows "load_table_chunked n E t p cols pk s = (Inl e, s)"
  using assms by (simp add: load_table_chunked_def reader_def)

lemma reader_eq:
  "reader E p lines = map Inr (DictReader lines) @ reader_end (read_error E p)"
  by (simp add: reader_def reader_end_def)

lemma reader_to_end: "read_error E p = None \<Longrightarrow> reader E p lines = map Inr (DictReader lines)"
  by (simp add: reader_def)

lemma load_table_chunked_view:
  assumes "files E p = Some lines" and "\<forall>r \<in> set (DictReader lines). set cols \<subseteq> dom r"
    and "\<not> aborted s" and "read_error E p = None"
  defines "batch \<equiv> stamped E (ticks s) cols (DictReader lines)"
  shows "fst (load_table_chunked n E t p cols pk s) =
           (case first_error E (upsert_sql t cols pk) batch of
              Inl e \<Rightarrow> Inl e | Inr u \<Rightarrow> Inr (length (DictReader lines)))"
    and "s_tables (snd (load_table_chunked n E t p cols pk s)) =
           (s_tables s)(t := applied E (upsert_sql t cols pk) batch (s_tables s t))"
    and "aborted (snd (load_table_chunked n E t p cols pk s)) =
           (\<not> list_all (storable E (upsert_sql t cols pk)) batch)"
    and "s_audit (snd (load_table_chunked n E t p cols pk s)) = s_audit s"
  using load_loop_view [OF assms(2,3), of E n "upsert_sql t cols pk" "[]" 0] assms(1,4)
  by (simp_all add: load_table_chunked_def reader_to_end batch_def split: sum.splits)

lemma load_table_chunked_independent:
  assumes "\<not> aborted s" and "read_error E p = None"
  shows "fst (load_table_chunked n E t p cols pk s) = fst (load_table_chunked m E t p cols pk s)
    \<and> s_tables (snd (load_table_chunked n E t p cols pk s)) =
        s_tables (snd (load_table_chunked m E t p cols pk s))
    \<and> s_audit (snd (load_table_chunked n E t p cols pk s)) =
        s_audit (snd (load_table_chunked m E t p cols pk s))
    \<and> aborted (snd (load_table_chunked n E t p cols pk s)) =
        aborted (snd (load_table_chunked m E t p cols pk s))"
proof (cases "files E p")
  case None
  then show ?thesis by (simp add: load_table_chunked_def)
next
  case (Some lines)
  from DictReader_readable_cases [of lines cols] show ?thesis
  proof
    assume ok: "\<forall>r \<in> set (DictReader lines). set cols \<subseteq> dom r"
    show ?thesis
      unfolding load_table_chunked_view [OF Some ok assms] by simp
  next
    assume "\<exists>r rs c. DictReader lines = r # rs \<and> c \<in> set cols \<and> r c = None \<and>
      row_values cols r = Inl (KeyError c)"
    then obtain r rs c where "DictReader lines = r # rs" "row_values cols r = Inl (KeyError c)"
      by blast
    then show ?thesis
      by (simp add: load_table_chunked_unreadable [OF Some])
  qed
qed

lemma load_table_chunked_success:
  assumes "load_table_chunked n E t p cols pk s = (Inr k, s')"
  shows "\<exists>lines. files E p = Some lines \<and> read_error E p = None \<and>
           k = length (DictReader lines) \<and> loop_post E n cols (DictReader lines) [] s s'"
proof (cases "files E p")
  case None
  with assms show ?thesis by (simp add: load_table_chunked_def)
next
  case (Some lines)
  with assms have "load_loop E n (upsert_sql t cols pk) cols
      (map Inr (DictReader lines) @ reader_end (read_error E p)) [] 0 s = (Inr k, s')"
    by (simp add: load_table_chunked_def reader_eq)
  from load_loop_success [OF this] Some show ?thesis by simp
qed

lemmas eval_defs = load_table_chunked_def load_table_def reader_def env_ex_def DictReader_def
  dict_row_def
  upsert_sql_def executemany_def execute_upsert_def excluded_row_def store_value_def
  coerce_ex_def digits_def utcnow_def clock_ex_def merge_row_def session_empty_def

lemma stamped_nth:
  "i < length rs \<Longrightarrow>
     stamped E t cols rs ! i = map (\<lambda>c. the ((rs ! i) c)) cols @ [PTime (clock E (t + i))]"
proof (induction rs arbitrary: t i)
  case Nil
  then show ?case by simp
next
  case (Cons r rs)
  show ?case
  proof (cases i)
    case 0
    then show ?thesis by simp
  next
    case (Suc j)
    with Cons.prems have "j < length rs" by simp
    from Cons.IH [OF this, of "Suc t"] Suc show ?thesis by simp
  qed
qed

lemma load_table_sent:
  assumes "files E p = Some lines"
  shows "\<exists>k. concat (sent (snd (load_table E t p cols pk s))) =
            concat (sent s) @ take k (stamped E (ticks s) cols (DictReader lines))"
  using load_loop_sent_prefix [of E 1000 "upsert_sql t cols pk" cols "DictReader lines"
      "read_error E p" "[]" 0 s]
    assms by (simp add: load_table_def load_table_chunked_def reader_eq)

lemma load_table_sent_success:
  assumes "load_table E t p cols pk s = (Inr m, s')" and "files E p = Some lines"
  shows "concat (sent s') = concat (sent s) @ stamped E (ticks s) cols (DictReader lines)"
    and "ticks s' = ticks s + length (DictReader lines)" and "m = length (DictReader lines)"
proof -
  from load_table_chunked_success [OF assms(1) [unfolded load_table_def]] assms(2)
  have post: "loop_post E 1000 cols (DictReader lines) [] s s'" and m: "m = length (DictReader lines)"
    by simp_all
  from post obtain new where "sent s' = sent s @ new"
    "concat new = [] @ stamped E (ticks s) cols (DictReader lines)"
    and t: "ticks s' = ticks s + length (DictReader lines)"
    unfolding loop_post_def by blast
  then show "concat (sent s') = concat (sent s) @ stamped E (ticks s) cols (DictReader lines)"
    by simp
  show "ticks s' = ticks s + length (DictReader lines)" by (rule t)
  show "m = length (DictReader lines)" by (rule m)
qed

lemma row_values_dict_row_ok:
  assumes "set cols \<subseteq> set fieldnames"
  shows "\<exists>vs. row_values cols (dict_row fieldnames line) = Inr vs \<and> length vs = length cols \<and>
     (\<forall>i < length cols. cols ! i \<in> set (drop (length line) fieldnames) \<longrightarrow> vs ! i = PNone)"
proof -
  let ?r = "dict_row fieldnames line"
  have "set cols \<subseteq> dom ?r" using assms by (simp add: dom_dict_row)
  then have rv: "row_values cols ?r = Inr (map (\<lambda>c. the (?r c)) cols)" by (rule row_values_ok)
  have "\<forall>i < length cols. cols ! i \<in> set (drop (length line) fieldnames) \<longrightarrow>
      map (\<lambda>c. the (?r c)) cols ! i = PNone"
    by (simp add: dict_row_short)
  with rv show ?thesis by simp
qed

lemma row_values_dict_row_err:
  assumes "\<not> set cols \<subseteq> set fieldnames"
  shows "\<exists>c \<in> set cols. c \<notin> set fieldnames \<and>
     row_values cols (dict_row fieldnames line) = Inl (KeyError c)"
proof -
  let ?r = "dict_row fieldnames line"
  from assms have "\<exists>c \<in> set cols. ?r c = None"
    using dom_dict_row [of fieldnames line] by (auto simp: dom_def)
  from row_values_err [OF this] obtain c where c: "c \<in> set cols" "?r c = None"
    "row_values cols ?r = Inl (KeyError c)" by blast
  from c(2) have "c \<notin> dom ?r" by (simp add: dom_def)
  then have "c \<notin> set fieldnames" by (simp add: dom_dict_row)
  with c show ?thesis by blast
qed

lemma load_table_header_lacks_column:
  assumes "files E p = Some (fieldnames # rest)" and "l \<in> set rest" and "l \<noteq> []"
    and "\<not> set cols \<subseteq> set fieldnames"
  shows "\<exists>c \<in> set cols. c \<notin> set fieldnames \<and>
     load_table_chunked n E t p cols pk s = (Inl (KeyError c), s)"
proof -
  from assms(2,3) have "filter (\<lambda>line. line \<noteq> []) rest \<noteq> []"
    by (auto simp: filter_empty_conv)
  then obtain l0 ls where ls: "filter (\<lambda>line. line \<noteq> []) rest = l0 # ls"
    by (cases "filter (\<lambda>line. line \<noteq> []) rest") auto
  then have dr: "DictReader (fieldnames # rest) = dict_row fieldnames l0 # map (dict_row fieldnames) ls"
    by (simp add: DictReader_def)
  from row_values_dict_row_err [OF assms(4), of l0] obtain c where
    c: "c \<in> set cols" "c \<notin> set fieldnames"
    "row_values cols (dict_row fieldnames l0) = Inl (KeyError c)" by blast
  from load_table_chunked_unreadable [OF assms(1) dr c(3)] c(1,2) show ?thesis by blast
qed

lemma execute_upsert_record:
  assumes "wf_desc cols pk" and "acceptable E t cols pk r"
  shows "execute_upsert E (upsert_sql t cols pk) (map (\<lambda>c. the (r c)) cols @ [PTime now]) T =
    Inr (upsert_row (upsert_sql t cols pk)
          (the_excluded E (upsert_sql t cols pk) (map (\<lambda>c. the (r c)) cols @ [PTime now])) T)"
proof -
  from assms(2) have "set cols \<subseteq> dom r" by (simp add: acceptable_def)
  with storable_record [OF assms(1) this, of E t now] assms(2)
  have "storable E (upsert_sql t cols pk) (map (\<lambda>c. the (r c)) cols @ [PTime now])" by simp
  then show ?thesis by (rule execute_upsert_storable)
qed

lemma merged_row_columns:
  assumes "wf_desc cols pk" and "acceptable E t cols pk r"
    and "x pk = coerce E t pk (the (r pk))"
  shows "merge_row (upsert_sql t cols pk)
      (the_excluded E (upsert_sql t cols pk) (map (\<lambda>c. the (r c)) cols @ [PTime now])) x c =
    (if c \<in> set cols then coerce E t c (the (r c))
     else if c = ''_ingested_at'' then Some (PTime now) else x c)"
proof -
  note ex = the_excluded_record [OF assms(1,2), of now]
  from assms(1) have ts: "''_ingested_at'' \<notin> set cols" by (simp add: wf_desc_def)
  show ?thesis
  proof (cases "c = pk")
    case True
    with assms(1) have "c \<in> set cols" by (simp add: wf_desc_def)
    with True ts assms(3) show ?thesis by (auto simp: merge_row_def ex)
  next
    case False
    then show ?thesis using ts by (auto simp: merge_row_def ex)
  qed
qed

lemma mat_pro_values:
  "mat_pro ''id'' = Some (PStr ''1'')" "mat_pro ''name'' = Some (PStr ''Mat Pro'')"
  "mat_pro ''category'' = Some (PStr ''Sports'')" "mat_pro ''price'' = Some (PStr ''24.99'')"
  "mat_pro ''supplier'' = Some (PStr ''Acme'')"
  by (simp_all add: mat_pro_def dict_row_def product_cols_def)

lemma wf_product_cols: "wf_desc product_cols ''id''"
  by (simp add: wf_desc_def product_cols_def)

lemma acceptable_mat_pro: "acceptable (env_ex Map.empty) ''public.products'' product_cols ''id'' mat_pro"
  by (simp add: acceptable_def product_cols_def mat_pro_values env_ex_def coerce_ex_def digits_def
      dom_def)

lemma stamped_storable:
  assumes "wf_desc cols pk" and "\<forall>r \<in> set rs. acceptable E t cols pk r"
  shows "list_all (storable E (upsert_sql t cols pk)) (stamped E n cols rs)"
  using assms(2)
proof (induction rs arbitrary: n)
  case Nil
  show ?case by simp
next
  case (Cons r rs)
  then have acc: "acceptable E t cols pk r" by simp
  then have "set cols \<subseteq> dom r" by (simp add: acceptable_def)
  from storable_record [OF assms(1) this, of E t "clock E n"] acc
  have "storable E (upsert_sql t cols pk) (map (\<lambda>c. the (r c)) cols @ [PTime (clock E n)])"
    by simp
  with Cons show ?case by simp
qed

lemma stamped_storable_conv:
  assumes "wf_desc cols pk" and "\<forall>r \<in> set rs. set cols \<subseteq> dom r"
    and "list_all (storable E (upsert_sql t cols pk)) (stamped E n cols rs)"
  shows "\<forall>r \<in> set rs. acceptable E t cols pk r"
  using assms(2,3)
proof (induction rs arbitrary: n)
  case Nil
  show ?case by simp
next
  case (Cons r rs)
  then have "set cols \<subseteq> dom r" by simp
  from storable_record [OF assms(1) this, of E t "clock E n"] Cons.prems(2)
  have "acceptable E t cols pk r" by simp
  moreover have "\<forall>r \<in> set rs. acceptable E t cols pk r"
    using Cons.IH [of "Suc n"] Cons.prems by simp
  ultimately show ?case by simp
qed

lemma length_proposed [simp]: "length (proposed E t cols pk n rs) = length rs"
  by (simp add: proposed_def)

lemma proposed_nth:
  assumes "wf_desc cols pk" and "acceptable E t cols pk (rs ! j)" and "j < length rs"
  shows "(proposed E t cols pk n rs ! j) c =
    (if c \<in> set cols then coerce E t c (the ((rs ! j) c))
     else if c = ''_ingested_at'' then Some (PTime (clock E (n + j))) else None)"
  using assms(3) the_excluded_record [OF assms(1,2), of "clock E (n + j)" c]
  by (simp add: proposed_def stamped_nth)

lemma proposed_key:
  assumes "wf_desc cols pk" and "acceptable E t cols pk (rs ! j)" and "j < length rs"
  shows "(proposed E t cols pk n rs ! j) pk = coerce E t pk (the ((rs ! j) pk))"
  using proposed_nth [OF assms, of n pk] assms(1) by (simp add: wf_desc_def)

lemma load_table_acceptable:
  assumes "wf_desc cols pk" and "files E p = Some lines"
    and "\<forall>r \<in> set (DictReader lines). acceptable E t cols pk r" and "\<not> aborted s"
    and "read_error E p = None"
  shows "fst (load_table_chunked n E t p cols pk s) = Inr (length (DictReader lines))"
    and "s_tables (snd (load_table_chunked n E t p cols pk s)) =
      (s_tables s)(t := fold (upsert_row (upsert_sql t cols pk))
         (proposed E t cols pk (ticks s) (DictReader lines)) (s_tables s t))"
    and "\<not> aborted (snd (load_table_chunked n E t p cols pk s))"
    and "s_audit (snd (load_table_chunked n E t p cols pk s)) = s_audit s"
proof -
  let ?rs = "DictReader lines"
  let ?q = "upsert_sql t cols pk"
  have rd: "\<forall>r \<in> set ?rs. set cols \<subseteq> dom r" using assms(3) by (simp add: acceptable_def)
  have st: "list_all (storable E ?q) (stamped E (ticks s) cols ?rs)"
    using assms(1,3) by (rule stamped_storable)
  then have fe: "first_error E ?q (stamped E (ticks s) cols ?rs) = Inr ()"
    by (rule first_error_Inr)
  have tw: "takeWhile (storable E ?q) (stamped E (ticks s) cols ?rs) = stamped E (ticks s) cols ?rs"
    using st by (simp add: list_all_iff)
  note view = load_table_chunked_view [OF assms(2) rd assms(4,5), of n t pk]
  show "fst (load_table_chunked n E t p cols pk s) = Inr (length ?rs)"
    unfolding view(1) fe by simp
  show "s_tables (snd (load_table_chunked n E t p cols pk s)) =
      (s_tables s)(t := fold (upsert_row ?q) (proposed E t cols pk (ticks s) ?rs) (s_tables s t))"
    unfolding view(2) applied_def tw proposed_def ..
  show "\<not> aborted (snd (load_table_chunked n E t p cols pk s))"
    unfolding view(3) using st by simp
  show "s_audit (snd (load_table_chunked n E t p cols pk s)) = s_audit s"
    by (rule view(4))
qed

lemma fold_upsert_row_of_last:
  assumes "j < length exs"
    and "\<forall>j'. j < j' \<and> j' < length exs \<longrightarrow> (exs ! j') (conflict q) \<noteq> (exs ! j) (conflict q)"
  shows "\<exists>i < length (fold (upsert_row q) exs T).
      (fold (upsert_row q) exs T ! i) (conflict q) = (exs ! j) (conflict q) \<and>
      (\<forall>c \<in> set (updates q). (fold (upsert_row q) exs T ! i) c = (exs ! j) c)"
proof -
  let ?T' = "fold (upsert_row q) exs T"
  have "(exs ! j) (conflict q) \<in> (\<lambda>ex. ex (conflict q)) ` set exs"
    using assms(1) by (metis imageI nth_mem)
  then have "(exs ! j) (conflict q) \<in> set (map (\<lambda>r. r (conflict q)) ?T')"
    unfolding keys_fold_upsert by simp
  then obtain i where i: "i < length ?T'" "(?T' ! i) (conflict q) = (exs ! j) (conflict q)"
    by (auto simp: in_set_conv_nth)
  have mem: "?T' ! i \<in> set ?T'" using i(1) by simp
  have later: "\<forall>j'. j < j' \<and> j' < length exs \<longrightarrow>
      (exs ! j') (conflict q) \<noteq> (?T' ! i) (conflict q)"
    using assms(2) i(2) by simp
  from fold_upsert_last_wins [OF mem assms(1) i(2) [symmetric] later] i show ?thesis by blast
qed

lemma acceptable_dict_row:
  assumes "set cols \<subseteq> set fieldnames"
    and "\<forall>c \<in> set cols. coerce E t c (the (dict_row fieldnames line c)) \<noteq> None"
    and "coerce E t pk (the (dict_row fieldnames line pk)) \<noteq> Some PNone"
  shows "acceptable E t cols pk (dict_row fieldnames line)"
  using assms by (simp add: acceptable_def dom_dict_row)

lemma DictReader_products_twice:
  "DictReader products_twice =
    [dict_row product_cols [''1'', ''Mat'', ''Sports'', ''19.99'', ''Acme''],
     dict_row product_cols [''2'', ''Ball'', ''Sports'', ''5.00'', ''Acme''],
     dict_row product_cols [''1'', ''Mat Pro'', ''Sports'', ''24.99'', ''Acme'']]"
  by (simp add: DictReader_def products_twice_def product_cols_def)

lemma acceptable_products_twice:
  "list_all (acceptable (env_ex fs) ''public.products'' product_cols ''id'')
     (DictReader products_twice)"
  unfolding DictReader_products_twice list.pred_inject
  by (intro conjI acceptable_dict_row TrueI)
     (simp_all add: product_cols_def dict_row_def env_ex_def coerce_ex_def digits_def)

lemma acceptable_cong: "coerce E2 = coerce E \<Longrightarrow> acceptable E2 t cols pk r = acceptable E t cols pk r"
  by (simp add: acceptable_def)

lemma reload_table:
  fixes q :: upsert_stmt and T0 :: table and exs1 exs2 :: "row list"
  assumes len: "length exs2 = length exs1"
    and keys: "\<forall>j < length exs1. (exs2 ! j) (conflict q) = (exs1 ! j) (conflict q)"
    and data: "\<forall>j < length exs1. \<forall>c \<in> set (updates q). c \<noteq> a \<longrightarrow> (exs2 ! j) c = (exs1 ! j) c"
  defines "T1 \<equiv> fold (upsert_row q) exs1 T0"
  defines "T2 \<equiv> fold (upsert_row q) exs2 T1"
  shows "length T2 = length T1"
    and "\<forall>i < length T1. \<forall>c. c \<noteq> a \<longrightarrow> (T2 ! i) c = (T1 ! i) c"
proof -
  have kmap: "map (\<lambda>ex. ex (conflict q)) exs2 = map (\<lambda>ex. ex (conflict q)) exs1"
    using len keys by (intro nth_equalityI) simp_all
  then have kset: "(\<lambda>ex. ex (conflict q)) ` set exs2 = (\<lambda>ex. ex (conflict q)) ` set exs1"
    by (metis set_map)
  have sub: "(\<lambda>ex. ex (conflict q)) ` set exs2 \<subseteq> set (map (\<lambda>r. r (conflict q)) T1)"
    unfolding T1_def keys_fold_upsert kset by simp
  show l: "length T2 = length T1"
    unfolding T2_def using sub by (rule length_fold_upsert_same)
  show "\<forall>i < length T1. \<forall>c. c \<noteq> a \<longrightarrow> (T2 ! i) c = (T1 ! i) c"
  proof (intro allI impI)
    fix i c assume i: "i < length T1" and c: "c \<noteq> a"
    note keep = nth_fold_upsert_keep [OF i, of q exs2, folded T2_def]
    show "(T2 ! i) c = (T1 ! i) c"
    proof (cases "c \<in> set (updates q)")
      case False
      with keep show ?thesis by simp
    next
      case True
      show ?thesis
      proof (cases "(T1 ! i) (conflict q) \<in> (\<lambda>ex. ex (conflict q)) ` set exs2")
        case False
        from nth_fold_upsert_untouched [OF i False] show ?thesis by (simp add: T2_def)
      next
        case in_keys: True
        from last_index_exists [OF in_keys] obtain j where j: "j < length exs2"
          "(exs2 ! j) (conflict q) = (T1 ! i) (conflict q)"
          "\<forall>j'. j < j' \<and> j' < length exs2 \<longrightarrow> (exs2 ! j') (conflict q) \<noteq> (T1 ! i) (conflict q)"
          by blast
        have j1: "j < length exs1" using j(1) len by simp
        have k1: "(exs1 ! j) (conflict q) = (T1 ! i) (conflict q)"
          using j(2) keys j1 by simp
        have later1: "\<forall>j'. j < j' \<and> j' < length exs1 \<longrightarrow>
            (exs1 ! j') (conflict q) \<noteq> (T1 ! i) (conflict q)"
        proof (intro allI impI)
          fix j' assume j': "j < j' \<and> j' < length exs1"
          then have "(exs2 ! j') (conflict q) \<noteq> (T1 ! i) (conflict q)"
            using j(3) len by simp
          with keys j' show "(exs1 ! j') (conflict q) \<noteq> (T1 ! i) (conflict q)" by simp
        qed
        have m1: "T1 ! i \<in> set (fold (upsert_row q) exs1 T0)"
          using i unfolding T1_def by simp
        from fold_upsert_last_wins [OF m1 j1 k1 later1] True
        have v1: "(T1 ! i) c = (exs1 ! j) c" by simp
        have i2: "i < length T2" using i l by simp
        have m2: "T2 ! i \<in> set (fold (upsert_row q) exs2 T1)"
          using i2 unfolding T2_def by simp
        have key2: "(T2 ! i) (conflict q) = (T1 ! i) (conflict q)" using keep by simp
        have k2: "(exs2 ! j) (conflict q) = (T2 ! i) (conflict q)" using j(2) key2 by simp
        have later2: "\<forall>j'. j < j' \<and> j' < length exs2 \<longrightarrow>
            (exs2 ! j') (conflict q) \<noteq> (T2 ! i) (conflict q)"
          using j(3) key2 by simp
        from fold_upsert_last_wins [OF m2 j(1) k2 later2] True
        have v2: "(T2 ! i) c = (exs2 ! j) c" by simp
        from data j1 True c have "(exs2 ! j) c = (exs1 ! j) c" by simp
        with v1 v2 show ?thesis by simp
      qed
    qed
  qed
qed

section \<open>What a load that fails can be\<close>

lemma first_error_not_KeyError: "first_error E q xs \<noteq> Inl (KeyError c)"
  by (simp add: first_error_def upsert_error_def excluded_row_def
      split: list.splits sum.splits option.splits)

lemma load_table_header_complete:
  assumes "files E p = Some (fieldnames # rest)" and "set cols \<subseteq> set fieldnames"
    and "read_error E p = None" and "\<not> aborted s"
  shows "\<forall>c. fst (load_table_chunked n E t p cols pk s) \<noteq> Inl (KeyError c)"
    and "if list_all (storable E (upsert_sql t cols pk))
            (stamped E (ticks s) cols (DictReader (fieldnames # rest)))
       then fst (load_table_chunked n E t p cols pk s) = Inr (length (DictReader (fieldnames # rest)))
          \<and> \<not> aborted (snd (load_table_chunked n E t p cols pk s))
       else (\<exists>e. fst (load_table_chunked n E t p cols pk s) = Inl e)
          \<and> aborted (snd (load_table_chunked n E t p cols pk s))"
proof -
  let ?q = "upsert_sql t cols pk"
  let ?rows = "stamped E (ticks s) cols (DictReader (fieldnames # rest))"
  have rd: "\<forall>r \<in> set (DictReader (fieldnames # rest)). set cols \<subseteq> dom r"
    using assms(2) DictReader_dom [of _ fieldnames rest] by simp
  note view = load_table_chunked_view [OF assms(1) rd assms(4,3), of n t pk]
  show "\<forall>c. fst (load_table_chunked n E t p cols pk s) \<noteq> Inl (KeyError c)"
    unfolding view(1) using first_error_not_KeyError [of E ?q ?rows]
    by (cases "first_error E ?q ?rows") auto
  show "if list_all (storable E ?q) ?rows
       then fst (load_table_chunked n E t p cols pk s) = Inr (length (DictReader (fieldnames # rest)))
          \<and> \<not> aborted (snd (load_table_chunked n E t p cols pk s))
       else (\<exists>e. fst (load_table_chunked n E t p cols pk s) = Inl e)
          \<and> aborted (snd (load_table_chunked n E t p cols pk s))"
  proof (cases "list_all (storable E ?q) ?rows")
    case True
    then have "first_error E ?q ?rows = Inr ()" by (rule first_error_Inr)
    with True show ?thesis unfolding view(1,3) by simp
  next
    case False
    then have "\<exists>e. first_error E ?q ?rows = Inl e"
      using first_error_ok [of E ?q ?rows] by (cases "first_error E ?q ?rows") auto
    with False show ?thesis unfolding view(1,3) by auto
  qed
qed

section \<open>The run as a whole\<close>

lemma executemany_audit: "s_audit (snd (executemany E q batch s)) = s_audit s"
  by (simp add: executemany_def run_batch_eq Let_def)

lemma executemany_Inl_aborted: "executemany E q batch s = (Inl e, s') \<Longrightarrow> aborted s'"
  by (auto simp: executemany_def run_batch_eq Let_def dest: first_error_Inl split: if_splits)

lemma load_loop_audit: "s_audit (snd (load_loop E n q cols items batch sub s)) = s_audit s"
proof (induction items arbitrary: batch sub s)
  case Nil
  show ?case
    using executemany_audit [of E q batch s]
    by (cases "executemany E q batch s") (auto split: sum.splits)
next
  case (Cons x items)
  show ?case
  proof (cases x)
    case (Inl e)
    then show ?thesis by simp
  next
    case r: (Inr r)
    show ?thesis
    proof (cases "row_values cols r")
      case (Inl e)
      then show ?thesis using r by simp
    next
      case (Inr vs)
      define b where "b = batch @ [vs @ [PTime (clock E (ticks s))]]"
      define s1 where "s1 = s\<lparr>ticks := Suc (ticks s)\<rparr>"
      have a1: "s_audit s1 = s_audit s" by (simp add: s1_def)
      note step = load_loop_Cons_cases [OF Inr, of E n q items batch sub s, folded b_def s1_def]
      show ?thesis
      proof (cases "n \<le> length b")
        case False
        with step have "load_loop E n q cols (x # items) batch sub s
            = load_loop E n q cols items b sub s1" using r by simp
        with Cons.IH [of b sub s1] a1 show ?thesis by simp
      next
        case True
        obtain res s2 where ex: "executemany E q b s1 = (res, s2)" by fastforce
        have a2: "s_audit s2 = s_audit s" using executemany_audit [of E q b s1] ex a1 by simp
        show ?thesis
        proof (cases res)
          case (Inl e)
          with step True ex r have "load_loop E n q cols (x # items) batch sub s = (Inl e, s2)"
            by simp
          with a2 show ?thesis by simp
        next
          case (Inr u)
          with step True ex r have "load_loop E n q cols (x # items) batch sub s
            = load_loop E n q cols items [] (sub + length b) s2" by simp
          with Cons.IH [of "[]" "sub + length b" s2] a2 show ?thesis by simp
        qed
      qed
    qed
  qed
qed

lemma load_loop_failure:
  assumes "\<forall>r \<in> set rs. set cols \<subseteq> dom r"
    and "load_loop E n q cols (map Inr rs @ reader_end err) batch sub s = (Inl e, s')"
    and "\<not> aborted s'"
  shows "err = Some e"
  using assms
proof (induction rs arbitrary: batch sub s)
  case Nil
  show ?case
  proof (cases err)
    case (Some e0)
    with Nil.prems(2) show ?thesis by (simp add: reader_end_def)
  next
    case None
    then have run: "load_loop E n q cols [] batch sub s = (Inl e, s')"
      using Nil.prems(2) by (simp add: reader_end_def)
    obtain res s2 where ex: "executemany E q batch s = (res, s2)" by fastforce
    show ?thesis
    proof (cases res)
      case (Inl e1)
      with run ex have "batch \<noteq> [] \<and> s' = s2" by (auto split: if_splits)
      with executemany_Inl_aborted [OF ex [unfolded Inl]] Nil.prems(3) show ?thesis by simp
    next
      case (Inr u)
      with run ex show ?thesis by (auto split: if_splits)
    qed
  qed
next
  case (Cons r rs)
  from Cons.prems(1) have rd: "set cols \<subseteq> dom r" and rest: "\<forall>r \<in> set rs. set cols \<subseteq> dom r"
    by simp_all
  define vs where "vs = map (\<lambda>c. the (r c)) cols"
  have rv: "row_values cols r = Inr vs" unfolding vs_def using rd by (rule row_values_ok)
  define b where "b = batch @ [vs @ [PTime (clock E (ticks s))]]"
  define s1 where "s1 = s\<lparr>ticks := Suc (ticks s)\<rparr>"
  define items where "items = map Inr rs @ reader_end err"
  have run: "load_loop E n q cols (Inr r # items) batch sub s = (Inl e, s')"
    using Cons.prems(2) by (simp add: items_def)
  note step = load_loop_Cons_cases [OF rv, of E n q items batch sub s, folded b_def s1_def]
  show ?case
  proof (cases "n \<le> length b")
    case False
    with step run have "load_loop E n q cols items b sub s1 = (Inl e, s')" by simp
    from Cons.IH [OF rest this [unfolded items_def] Cons.prems(3)] show ?thesis .
  next
    case True
    obtain res s2 where ex: "executemany E q b s1 = (res, s2)" by fastforce
    show ?thesis
    proof (cases res)
      case (Inl e1)
      with step True ex run have "s' = s2" by simp
      with executemany_Inl_aborted [OF ex [unfolded Inl]] Cons.prems(3) show ?thesis by simp
    next
      case (Inr u)
      with step True ex run have "load_loop E n q cols items [] (sub + length b) s2 = (Inl e, s')"
        by simp
      from Cons.IH [OF rest this [unfolded items_def] Cons.prems(3)] show ?thesis .
    qed
  qed
qed

lemma load_table_success_facts:
  assumes "files E f = Some lines" and "\<not> aborted s"
    and "load_table E t f cols pk s = (Inr m, s')"
  shows "s_audit s' = s_audit s" and "\<not> aborted s'" and "m = length (DictReader lines)"
    and "ticks s' = ticks s + length (DictReader lines)"
    and "\<forall>r \<in> set (DictReader lines). set cols \<subseteq> dom r"
    and "list_all (storable E (upsert_sql t cols pk)) (stamped E (ticks s) cols (DictReader lines))"
    and "read_error E f = None"
proof -
  let ?rs = "DictReader lines"
  have run: "load_table_chunked 1000 E t f cols pk s = (Inr m, s')"
    using assms(3) by (simp add: load_table_def)
  from load_table_chunked_success [OF run] show re: "read_error E f = None" by blast
  show rd: "\<forall>r \<in> set ?rs. set cols \<subseteq> dom r"
  proof (rule ccontr)
    assume "\<not> (\<forall>r \<in> set ?rs. set cols \<subseteq> dom r)"
    with DictReader_readable_cases [of lines cols] obtain r rs c where
      "?rs = r # rs" "row_values cols r = Inl (KeyError c)" by blast
    from load_table_chunked_unreadable [OF assms(1) this, where n = 1000 and t = t and pk = pk and s = s] run
    show False by simp
  qed
  note view = load_table_chunked_view [OF assms(1) rd assms(2) re, of 1000 t pk, unfolded run]
  from view(1) have fe: "first_error E (upsert_sql t cols pk) (stamped E (ticks s) cols ?rs) = Inr ()"
    by (cases "first_error E (upsert_sql t cols pk) (stamped E (ticks s) cols ?rs)") simp_all
  then show st: "list_all (storable E (upsert_sql t cols pk)) (stamped E (ticks s) cols ?rs)"
    using first_error_ok by blast
  from view(3) st show "\<not> aborted s'" by simp
  from view(4) show "s_audit s' = s_audit s" by simp
  from load_table_sent_success(2,3) [OF assms(3,1)]
  show "ticks s' = ticks s + length ?rs" and "m = length ?rs" by simp_all
qed

lemma load_table_failure_facts:
  assumes "files E f = Some lines" and "\<not> aborted s"
    and "load_table E t f cols pk s = (Inl e, s')"
  shows "s_audit s' = s_audit s"
    and "aborted s' \<or>
         (\<exists>c. e = KeyError c \<and> s' = s \<and> (\<exists>r \<in> set (DictReader lines). \<not> set cols \<subseteq> dom r)) \<or>
         read_error E f = Some e"
proof -
  let ?rs = "DictReader lines"
  have run: "load_table_chunked 1000 E t f cols pk s = (Inl e, s')"
    using assms(3) by (simp add: load_table_def)
  then have loop: "load_loop E 1000 (upsert_sql t cols pk) cols
      (map Inr ?rs @ reader_end (read_error E f)) [] 0 s = (Inl e, s')"
    using assms(1) by (simp add: load_table_chunked_def reader_eq)
  from load_loop_audit [of E 1000 "upsert_sql t cols pk" cols
      "map Inr ?rs @ reader_end (read_error E f)" "[]" 0 s] loop
  show "s_audit s' = s_audit s" by simp
  show "aborted s' \<or>
         (\<exists>c. e = KeyError c \<and> s' = s \<and> (\<exists>r \<in> set ?rs. \<not> set cols \<subseteq> dom r)) \<or>
         read_error E f = Some e"
  proof (cases "\<forall>r \<in> set ?rs. set cols \<subseteq> dom r")
    case True
    show ?thesis
    proof (cases "aborted s'")
      case False
      from load_loop_failure [OF True loop False] show ?thesis by simp
    qed simp
  next
    case False
    with DictReader_readable_cases [of lines cols] obtain r rs c where
      u: "?rs = r # rs" "row_values cols r = Inl (KeyError c)" by blast
    from load_table_chunked_unreadable [OF assms(1) u, where n = 1000 and t = t and pk = pk and s = s] run
    have "e = KeyError c" "s' = s" by simp_all
    with False show ?thesis by blast
  qed
qed

lemma reading_fails_here: "read_error E f = Some e \<Longrightarrow> reading_fails E ((t, f, cols, pk) # fs) e"
  by (simp add: reading_fails_def)

lemma reading_fails_later: "reading_fails E fs e \<Longrightarrow> reading_fails E (x # fs) e"
  by (simp add: reading_fails_def)

lemma read_to_end_not_fails: "read_to_end E fs \<Longrightarrow> \<not> reading_fails E fs e"
  by (induction fs) (auto simp: read_to_end_def reading_fails_def)

lemma lacks_column_here:
  "files E f = Some lines \<Longrightarrow> r \<in> set (DictReader lines) \<Longrightarrow> \<not> set cols \<subseteq> dom r \<Longrightarrow>
     lacks_column E ((t, f, cols, pk) # fs)"
  unfolding lacks_column_def by (meson list.set_intros(1))

lemma lacks_column_later: "lacks_column E fs \<Longrightarrow> lacks_column E (x # fs)"
  unfolding lacks_column_def by (meson list.set_intros(2))

lemma load_all_success:
  assumes "\<forall>x \<in> set fs. files E (fst (snd x)) \<noteq> None" and "\<not> aborted s"
    and "load_all E fs dets s = (Inr ds, s')"
  shows "s_audit s' = s_audit s \<and> \<not> aborted s' \<and> ds = dets @ counts E fs \<and> ticks s \<le> ticks s' \<and>
    (\<forall>t f cols pk lines. (t, f, cols, pk) \<in> set fs \<and> files E f = Some lines \<and> wf_desc cols pk
        \<longrightarrow> (\<forall>r \<in> set (DictReader lines). acceptable E t cols pk r))"
  using assms
proof (induction fs arbitrary: dets s)
  case Nil
  then show ?case by (simp add: counts_def)
next
  case (Cons x fs)
  obtain t f cols pk where x: "x = (t, f, cols, pk)" by (cases x)
  from Cons.prems(1) x obtain lines where f: "files E f = Some lines" by auto
  obtain res s1 where lt: "load_table E t f cols pk s = (res, s1)"
    by (cases "load_table E t f cols pk s")
  show ?case
  proof (cases res)
    case (Inl e)
    with Cons.prems(3) x lt show ?thesis by simp
  next
    case (Inr m)
    note facts = load_table_success_facts [OF f Cons.prems(2) lt [unfolded Inr]]
    have rest: "load_all E fs (dets @ [(t, m)]) s1 = (Inr ds, s')"
      using Cons.prems(3) x lt Inr by simp
    have files_rest: "\<forall>x \<in> set fs. files E (fst (snd x)) \<noteq> None" using Cons.prems(1) by simp
    note ihc = Cons.IH [OF files_rest facts(2) rest]
    note ih = ihc [THEN conjunct1] ihc [THEN conjunct2, THEN conjunct1]
      ihc [THEN conjunct2, THEN conjunct2, THEN conjunct1]
      ihc [THEN conjunct2, THEN conjunct2, THEN conjunct2, THEN conjunct1]
      ihc [THEN conjunct2, THEN conjunct2, THEN conjunct2, THEN conjunct2]
    have cnt: "counts E (x # fs) = (t, m) # counts E fs"
      using f facts(3) by (simp add: counts_def x)
    have acc_here: "\<forall>r \<in> set (DictReader lines). acceptable E t cols pk r" if "wf_desc cols pk"
      using that facts(5) facts(6) by (rule stamped_storable_conv)
    have acc: "\<forall>t' f' cols' pk' lines'. (t', f', cols', pk') \<in> set (x # fs) \<and>
        files E f' = Some lines' \<and> wf_desc cols' pk'
        \<longrightarrow> (\<forall>r \<in> set (DictReader lines'). acceptable E t' cols' pk' r)"
    proof (intro allI impI)
      fix t' f' cols' pk' lines'
      assume a: "(t', f', cols', pk') \<in> set (x # fs) \<and> files E f' = Some lines' \<and>
        wf_desc cols' pk'"
      show "\<forall>r \<in> set (DictReader lines'). acceptable E t' cols' pk' r"
      proof (cases "(t', f', cols', pk') = x")
        case True
        with x have eqs: "t' = t" "f' = f" "cols' = cols" "pk' = pk" by simp_all
        from a have "files E f' = Some lines'" and w: "wf_desc cols' pk'" by simp_all
        with f eqs have l: "lines' = lines" by simp
        from acc_here w eqs have "\<forall>r \<in> set (DictReader lines). acceptable E t cols pk r" by simp
        then show ?thesis unfolding eqs l .
      next
        case False
        with a have m: "(t', f', cols', pk') \<in> set fs" by simp
        from a have "files E f' = Some lines'" and "wf_desc cols' pk'" by simp_all
        with m have "(t', f', cols', pk') \<in> set fs \<and> files E f' = Some lines' \<and>
            wf_desc cols' pk'" by (intro conjI)
        then show ?thesis by (rule ih(5) [THEN spec, THEN spec, THEN spec, THEN spec, THEN spec, THEN mp])
      qed
    qed
    have 1: "s_audit s' = s_audit s" using ih(1) facts(1) by simp
    have 3: "ds = dets @ counts E (x # fs)" using ih(3) cnt by simp
    have 4: "ticks s \<le> ticks s'" using ih(4) facts(4) by simp
    show ?thesis by (intro conjI) (rule 1, rule ih(2), rule 3, rule 4, rule acc)
  qed
qed

lemma load_all_success_reads:
  assumes "\<forall>x \<in> set fs. files E (fst (snd x)) \<noteq> None" and "\<not> aborted s"
    and "load_all E fs dets s = (Inr ds, s')"
  shows "read_to_end E fs"
  using assms
proof (induction fs arbitrary: dets s)
  case Nil
  then show ?case by (simp add: read_to_end_def)
next
  case (Cons x fs)
  obtain t f cols pk where x: "x = (t, f, cols, pk)" by (cases x)
  from Cons.prems(1) x obtain lines where f: "files E f = Some lines" by auto
  obtain res s1 where lt: "load_table E t f cols pk s = (res, s1)"
    by (cases "load_table E t f cols pk s")
  show ?case
  proof (cases res)
    case (Inl e)
    with Cons.prems(3) x lt show ?thesis by simp
  next
    case (Inr m)
    note facts = load_table_success_facts [OF f Cons.prems(2) lt [unfolded Inr]]
    have rest: "load_all E fs (dets @ [(t, m)]) s1 = (Inr ds, s')"
      using Cons.prems(3) x lt Inr by simp
    have files_rest: "\<forall>x \<in> set fs. files E (fst (snd x)) \<noteq> None" using Cons.prems(1) by simp
    from Cons.IH [OF files_rest facts(2) rest] facts(7) show ?thesis
      by (simp add: read_to_end_def x)
  qed
qed

lemma load_all_failure:
  assumes "\<forall>x \<in> set fs. files E (fst (snd x)) \<noteq> None" and "\<not> aborted s"
    and "load_all E fs dets s = (Inl e, s')"
  shows "s_audit s' = s_audit s \<and>
    (aborted s' \<or> ((\<exists>c. e = KeyError c) \<and> lacks_column E fs) \<or> reading_fails E fs e)"
  using assms
proof (induction fs arbitrary: dets s)
  case Nil
  then show ?case by simp
next
  case (Cons x fs)
  obtain t f cols pk where x: "x = (t, f, cols, pk)" by (cases x)
  from Cons.prems(1) x obtain lines where f: "files E f = Some lines" by auto
  obtain res s1 where lt: "load_table E t f cols pk s = (res, s1)"
    by (cases "load_table E t f cols pk s")
  have step: "load_all E (x # fs) dets s =
    (case res of Inl e1 \<Rightarrow> (Inl e1, s1) | Inr m \<Rightarrow> load_all E fs (dets @ [(t, m)]) s1)"
    by (simp add: x lt split: sum.splits)
  show ?case
  proof (cases res)
    case (Inl e1)
    with Cons.prems(3) step have e: "e = e1" "s' = s1" by simp_all
    note facts = load_table_failure_facts [OF f Cons.prems(2) lt [unfolded Inl]]
    have a: "s_audit s' = s_audit s" using facts(1) e by simp
    from facts(2) show ?thesis
    proof (elim disjE conjE exE bexE)
      assume "aborted s1"
      then have "aborted s'" using e by simp
      then show ?thesis using a by simp
    next
      fix c r assume c: "e1 = KeyError c" and r: "r \<in> set (DictReader lines)"
        "\<not> set cols \<subseteq> dom r"
      have "lacks_column E (x # fs)" unfolding x using f r by (rule lacks_column_here)
      moreover have "\<exists>c. e = KeyError c" using e c by simp
      ultimately show ?thesis using a by simp
    next
      assume "read_error E f = Some e1"
      then have "reading_fails E (x # fs) e" unfolding x e by (rule reading_fails_here)
      then show ?thesis using a by simp
    qed
  next
    case (Inr m)
    note facts = load_table_success_facts [OF f Cons.prems(2) lt [unfolded Inr]]
    have rest: "load_all E fs (dets @ [(t, m)]) s1 = (Inl e, s')"
      using Cons.prems(3) step Inr by simp
    have files_rest: "\<forall>x \<in> set fs. files E (fst (snd x)) \<noteq> None" using Cons.prems(1) by simp
    note ihc = Cons.IH [OF files_rest facts(2) rest]
    note ih1 = ihc [THEN conjunct1] and ih2 = ihc [THEN conjunct2]
    have a: "s_audit s' = s_audit s" using ih1 facts(1) by simp
    from ih2 have "aborted s' \<or> ((\<exists>c. e = KeyError c) \<and> lacks_column E (x # fs))
        \<or> reading_fails E (x # fs) e"
      using lacks_column_later [of E fs x] reading_fails_later [of E fs e x] by blast
    with a show ?thesis by simp
  qed
qed

lemma main_not_fresh:
  assumes "check_files E FILES = None" and "\<exists>r \<in> set (load_audit db0). batch_id r = b"
  shows "main E b db0 = (Raised UniqueViolation, db0)"
  using assms by (simp add: main_def insert_audit_def Let_def)

lemma main_missing:
  assumes "check_files E FILES = Some e"
  shows "main E b db0 = (Raised e, db0)"
  using assms by (simp add: main_def)

lemma main_started:
  assumes "check_files E FILES = None" and "\<not> (\<exists>r \<in> set (load_audit db0). batch_id r = b)"
  shows "main E b db0 =
    (case try_body E b (started_session E b db0) of
       (Inr u, s2) \<Rightarrow> (Returned, commit db0 s2)
     | (Inl e, s2) \<Rightarrow>
        (case update_audit (clock E (ticks s2)) ''failed'' (Failure e) b
                (s2\<lparr>ticks := Suc (ticks s2)\<rparr>) of
           (Inl e', s4) \<Rightarrow> (Raised e', db0)
         | (Inr u, s4) \<Rightarrow> (Raised e, commit db0 s4)))"
  using assms
  by (simp add: main_def insert_audit_def started_session_def audit_entry_def utcnow_def Let_def
      split: prod.splits sum.splits)

lemma update_started_audit:
  assumes "\<not> (\<exists>r \<in> set old. batch_id r = b)"
  shows "map (\<lambda>r. if batch_id r = b
                   then r\<lparr>finished_at_utc := Some fin, status := st, details := d\<rparr> else r)
           (old @ [audit_entry E b None ''running'' (Stats [])])
         = old @ [audit_entry E b (Some fin) st d]"
proof -
  have "map (\<lambda>r. if batch_id r = b
                   then r\<lparr>finished_at_utc := Some fin, status := st, details := d\<rparr> else r) old
        = old"
    using assms by (intro map_idI) auto
  then show ?thesis by (simp add: audit_entry_def)
qed

lemma main_succeeds:
  assumes "check_files E FILES = None" and "\<not> (\<exists>r \<in> set (load_audit db0). batch_id r = b)"
    and "load_all E FILES [] (started_session E b db0) = (Inr ds, s2)"
  shows "main E b db0 =
    (Returned, \<lparr> tables = s_tables s2,
        load_audit = load_audit db0 @
          [audit_entry E b (Some (clock E (ticks s2))) ''succeeded'' (Stats ds)] \<rparr>)"
proof -
  have files: "\<forall>x \<in> set FILES. files E (fst (snd x)) \<noteq> None"
    using check_files_None [OF assms(1)] by auto
  have na: "\<not> aborted (started_session E b db0)" by (simp add: started_session_def)
  note la = load_all_success [OF files na assms(3)]
  have au: "s_audit s2 = load_audit db0 @ [audit_entry E b None ''running'' (Stats [])]"
    using la [THEN conjunct1] by (simp add: started_session_def)
  have na2: "\<not> aborted s2" using la [THEN conjunct2, THEN conjunct1] .
  have tb: "try_body E b (started_session E b db0) =
      (Inr (), s2\<lparr>ticks := Suc (ticks s2),
         s_audit := load_audit db0 @
           [audit_entry E b (Some (clock E (ticks s2))) ''succeeded'' (Stats ds)]\<rparr>)"
    using na2 by (simp add: try_body_def assms(3) utcnow_def update_audit_def au
        update_started_audit [OF assms(2)] del: map_append)
  show ?thesis
    unfolding main_started [OF assms(1,2)] tb using na2 by (simp add: commit_def)
qed

lemma main_fails:
  assumes "check_files E FILES = None" and "\<not> (\<exists>r \<in> set (load_audit db0). batch_id r = b)"
    and "load_all E FILES [] (started_session E b db0) = (Inl e, s2)"
  shows "main E b db0 =
    (if aborted s2 then (Raised InFailedSqlTransaction, db0)
     else (Raised e, \<lparr> tables = s_tables s2,
        load_audit = load_audit db0 @
          [audit_entry E b (Some (clock E (ticks s2))) ''failed'' (Failure e)] \<rparr>))"
proof -
  have files: "\<forall>x \<in> set FILES. files E (fst (snd x)) \<noteq> None"
    using check_files_None [OF assms(1)] by auto
  have na: "\<not> aborted (started_session E b db0)" by (simp add: started_session_def)
  note la = load_all_failure [OF files na assms(3)]
  have au: "s_audit s2 = load_audit db0 @ [audit_entry E b None ''running'' (Stats [])]"
    using la [THEN conjunct1] by (simp add: started_session_def)
  have tb: "try_body E b (started_session E b db0) = (Inl e, s2)"
    by (simp add: try_body_def assms(3))
  show ?thesis
    unfolding main_started [OF assms(1,2)] tb
    by (simp add: update_audit_def commit_def au update_started_audit [OF assms(2)]
        del: map_append)
qed

lemma wf_FILES: "(t, f, cols, pk) \<in> set FILES \<Longrightarrow> wf_desc cols pk"
  by (auto simp: FILES_def wf_desc_def)

lemma filter_batch_appended:
  assumes "\<not> (\<exists>r \<in> set old. batch_id r = b)" and "batch_id a = b"
  shows "[r \<leftarrow> old @ [a]. batch_id r = b] = [a]" and "[r \<leftarrow> old @ [a]. batch_id r \<noteq> b] = old"
proof -
  have "[r \<leftarrow> old. batch_id r = b] = []" using assms(1) by (simp add: filter_empty_conv)
  then show "[r \<leftarrow> old @ [a]. batch_id r = b] = [a]" using assms(2) by simp
  have "[r \<leftarrow> old. batch_id r \<noteq> b] = old" using assms(1) by (simp add: filter_id_conv)
  then show "[r \<leftarrow> old @ [a]. batch_id r \<noteq> b] = old" using assms(2) by simp
qed

lemma main_Returned_cases:
  assumes "main E b db0 = (Returned, db')"
  shows "check_files E FILES = None" and "\<not> (\<exists>r \<in> set (load_audit db0). batch_id r = b)"
    and "\<exists>ds s2. load_all E FILES [] (started_session E b db0) = (Inr ds, s2)"
proof -
  show cf: "check_files E FILES = None"
  proof (cases "check_files E FILES")
    case (Some e)
    from main_missing [OF this, of b db0] assms show ?thesis by simp
  qed simp
  show fresh: "\<not> (\<exists>r \<in> set (load_audit db0). batch_id r = b)"
  proof
    assume "\<exists>r \<in> set (load_audit db0). batch_id r = b"
    from main_not_fresh [OF cf this] assms show False by simp
  qed
  obtain res s2 where la: "load_all E FILES [] (started_session E b db0) = (res, s2)"
    by (cases "load_all E FILES [] (started_session E b db0)")
  show "\<exists>ds s2. load_all E FILES [] (started_session E b db0) = (Inr ds, s2)"
  proof (cases res)
    case (Inl e)
    from main_fails [OF cf fresh la [unfolded Inl]] assms show ?thesis
      by (cases "aborted s2") simp_all
  next
    case (Inr ds)
    with la show ?thesis by blast
  qed
qed

lemma FILES_cols:
  "FILES = [(''public.customers'', ''customers.csv'', customer_cols, ''id''),
            (''public.products'', ''products.csv'', product_cols, ''id''),
            (''public.transactions'', ''transactions.csv'', transaction_cols, ''id'')]"
  by (simp add: FILES_def customer_cols_def product_cols_def transaction_cols_def)

lemma wf_customer_cols: "wf_desc customer_cols ''id''"
  by (simp add: wf_desc_def customer_cols_def)

lemma wf_transaction_cols: "wf_desc transaction_cols ''id''"
  by (simp add: wf_desc_def transaction_cols_def)

lemma load_table_ok:
  assumes "wf_desc cols pk" and "files E p = Some lines"
    and "list_all (acceptable E t cols pk) (DictReader lines)" and "\<not> aborted s"
    and "read_error E p = None"
  obtains s' where "load_table E t p cols pk s = (Inr (length (DictReader lines)), s')"
    and "\<not> aborted s'" and "s_audit s' = s_audit s"
    and "s_tables s' = (s_tables s)(t := fold (upsert_row (upsert_sql t cols pk))
           (proposed E t cols pk (ticks s) (DictReader lines)) (s_tables s t))"
    and "ticks s' = ticks s + length (DictReader lines)"
proof -
  have acc: "\<forall>r \<in> set (DictReader lines). acceptable E t cols pk r"
    using assms(3) by (simp add: list_all_iff)
  note la = load_table_acceptable [OF assms(1,2) acc assms(4,5), of 1000, folded load_table_def]
  have run: "load_table E t p cols pk s =
      (Inr (length (DictReader lines)), snd (load_table E t p cols pk s))"
    using la(1) by (metis prod.collapse)
  note tk = load_table_sent_success(2) [OF run assms(2)]
  from that [OF run la(3) la(4) la(2) tk] show ?thesis .
qed

lemma load_table_lacks:
  assumes "files E p = Some (fieldnames # line # rest)" and "line \<noteq> []"
    and "c \<in> set cols" and "list_all (\<lambda>c'. c' = c \<or> c' \<in> set fieldnames) cols"
    and "c \<notin> set fieldnames"
  shows "load_table E t p cols pk s = (Inl (KeyError c), s)"
proof -
  have m: "line \<in> set (line # rest)" by simp
  have n: "\<not> set cols \<subseteq> set fieldnames" using assms(3,5) by auto
  from load_table_header_lacks_column [OF assms(1) m assms(2) n, of 1000 t pk s]
  obtain c' where c': "c' \<in> set cols" "c' \<notin> set fieldnames"
    "load_table E t p cols pk s = (Inl (KeyError c'), s)"
    unfolding load_table_def by blast
  from c'(1,2) assms(4) have "c' = c" by (auto simp: list_all_iff)
  with c'(3) show ?thesis by simp
qed

lemma load_table_refused:
  assumes "wf_desc cols pk" and "files E p = Some (fieldnames # rest)"
    and "set cols \<subseteq> set fieldnames" and "read_error E p = None" and "\<not> aborted s"
    and "r \<in> set (DictReader (fieldnames # rest))" and "\<not> acceptable E t cols pk r"
  obtains e s' where "load_table E t p cols pk s = (Inl e, s')" and "aborted s'"
proof -
  let ?rs = "DictReader (fieldnames # rest)"
  have rd: "\<forall>r \<in> set ?rs. set cols \<subseteq> dom r"
    using assms(3) DictReader_dom [of _ fieldnames rest] by simp
  have "\<not> list_all (storable E (upsert_sql t cols pk)) (stamped E (ticks s) cols ?rs)"
    using stamped_storable_conv [OF assms(1) rd, of E t "ticks s"] assms(6,7) by blast
  with load_table_header_complete(2) [OF assms(2,3,4,5), where n = 1000 and t = t and pk = pk]
  obtain e where "fst (load_table E t p cols pk s) = Inl e"
    and ab: "aborted (snd (load_table E t p cols pk s))"
    unfolding load_table_def by auto
  then have "load_table E t p cols pk s = (Inl e, snd (load_table E t p cols pk s))"
    by (metis prod.collapse)
  from that [OF this ab] show ?thesis .
qed

lemma single_row_loaded:
  "length (fold (upsert_row q) (proposed E t cols pk n [r]) []) = 1"
  by (simp add: proposed_def upsert_row_def)

lemma DictReader_customers_ok:
  "DictReader customers_ok =
    [dict_row customer_cols [''1'', ''Ann'', ''ann@example.org'', ''2024-01-05'', ''PT'']]"
  by (simp add: DictReader_def customers_ok_def customer_cols_def)

lemma DictReader_products_ok:
  "DictReader products_ok = [dict_row product_cols [''1'', ''Mat'', ''Sports'', ''19.99'', ''Acme'']]"
  by (simp add: DictReader_def products_ok_def product_cols_def)

lemma DictReader_transactions_ok:
  "DictReader transactions_ok =
    [dict_row transaction_cols [''1'', ''1'', ''1'', ''2'', ''2024-02-01T10:00:00'', ''card'']]"
  by (simp add: DictReader_def transactions_ok_def transaction_cols_def)

lemma DictReader_transactions_bad_quantity:
  "DictReader transactions_bad_quantity =
    [dict_row transaction_cols [''1'', ''1'', ''1'', ''two'', ''2024-02-01T10:00:00'', ''card'']]"
  by (simp add: DictReader_def transactions_bad_quantity_def transaction_cols_def)

lemma acceptable_customers_ok:
  assumes "coerce E = coerce_ex"
  shows "list_all (acceptable E ''public.customers'' customer_cols ''id'') (DictReader customers_ok)"
  unfolding DictReader_customers_ok list.pred_inject
  by (intro conjI acceptable_dict_row TrueI)
     (simp_all add: customer_cols_def dict_row_def assms coerce_ex_def digits_def)

lemma acceptable_products_ok:
  assumes "coerce E = coerce_ex"
  shows "list_all (acceptable E ''public.products'' product_cols ''id'') (DictReader products_ok)"
  unfolding DictReader_products_ok list.pred_inject
  by (intro conjI acceptable_dict_row TrueI)
     (simp_all add: product_cols_def dict_row_def assms coerce_ex_def digits_def)

lemma acceptable_transactions_ok:
  assumes "coerce E = coerce_ex"
  shows "list_all (acceptable E ''public.transactions'' transaction_cols ''id'')
     (DictReader transactions_ok)"
  unfolding DictReader_transactions_ok list.pred_inject
  by (intro conjI acceptable_dict_row TrueI)
     (simp_all add: transaction_cols_def dict_row_def assms coerce_ex_def digits_def)

lemma check_files3: "files E = files3 c p t \<Longrightarrow> check_files E FILES = None"
  by (simp add: FILES_def files3_def)

lemma files3_simps:
  assumes "files E = files3 c p t"
  shows "files E ''customers.csv'' = Some c" and "files E ''products.csv'' = Some p"
    and "files E ''transactions.csv'' = Some t"
  using assms by (simp_all add: files3_def)

lemma env_ex_simps:
  "coerce (env_ex fs) = coerce_ex" "files (env_ex fs) = fs" "read_error (env_ex fs) f = None"
  "clock (env_ex fs) = clock_ex"
  by (simp_all add: env_ex_def)

lemma env_clock_back_simps:
  "coerce (env_clock_back fs) = coerce_ex" "files (env_clock_back fs) = fs"
  "read_error (env_clock_back fs) f = None" "clock (env_clock_back fs) = (\<lambda>i. 100 - 10 * i)"
  by (simp_all add: env_clock_back_def)

lemma fresh_db_empty: "\<not> (\<exists>r \<in> set (load_audit db_empty). batch_id r = b)"
  by (simp add: db_empty_def)

lemma main_three_ok:
  assumes co: "coerce E = coerce_ex"
    and fs: "files E = files3 customers_ok products_ok transactions_ok"
    and re: "\<And>f. read_error E f = None"
  obtains T where "main E b db_empty =
    (Returned, \<lparr> tables = T,
       load_audit = [audit_entry E b (Some (clock E 4)) ''succeeded''
         (Stats [(''public.customers'', 1), (''public.products'', 1),
                 (''public.transactions'', 1)])] \<rparr>)"
proof -
  let ?s1 = "started_session E b db_empty"
  have na: "\<not> aborted ?s1" and t1: "ticks ?s1 = 1" by (simp_all add: started_session_def)
  note f = files3_simps [OF fs]
  from load_table_ok [OF wf_customer_cols f(1) acceptable_customers_ok [OF co] na re]
  obtain sA where A: "load_table E ''public.customers'' ''customers.csv'' customer_cols ''id'' ?s1
      = (Inr (length (DictReader customers_ok)), sA)" "\<not> aborted sA"
    and tA: "ticks sA = ticks ?s1 + length (DictReader customers_ok)"
    by blast
  from load_table_ok [OF wf_product_cols f(2) acceptable_products_ok [OF co] A(2) re]
  obtain sB where B: "load_table E ''public.products'' ''products.csv'' product_cols ''id'' sA
      = (Inr (length (DictReader products_ok)), sB)" "\<not> aborted sB"
    and tB: "ticks sB = ticks sA + length (DictReader products_ok)"
    by blast
  from load_table_ok [OF wf_transaction_cols f(3) acceptable_transactions_ok [OF co] B(2) re]
  obtain sC where C: "load_table E ''public.transactions'' ''transactions.csv'' transaction_cols
      ''id'' sB = (Inr (length (DictReader transactions_ok)), sC)"
    and tC: "ticks sC = ticks sB + length (DictReader transactions_ok)"
    by blast
  have n: "length (DictReader customers_ok) = 1" "length (DictReader products_ok) = 1"
    "length (DictReader transactions_ok) = 1"
    by (simp_all add: DictReader_customers_ok DictReader_products_ok DictReader_transactions_ok)
  have la: "load_all E FILES [] ?s1 =
      (Inr [(''public.customers'', 1), (''public.products'', 1), (''public.transactions'', 1)], sC)"
    unfolding FILES_cols using n by (simp add: A(1) B(1) C)
  have tk: "ticks sC = 4" using tA tB tC t1 n by simp
  have "main E b db_empty =
    (Returned, \<lparr> tables = s_tables sC,
       load_audit = [audit_entry E b (Some (clock E 4)) ''succeeded''
         (Stats [(''public.customers'', 1), (''public.products'', 1),
                 (''public.transactions'', 1)])] \<rparr>)"
    using main_succeeds [OF check_files3 [OF fs] fresh_db_empty la] tk
    by (simp add: db_empty_def)
  then show ?thesis by (rule that)
qed

lemma main_example_no_supplier:
  obtains sA :: session and fin where
    "main (env_ex (files3 customers_ok products_no_supplier transactions_ok)) b db_empty
      = (Raised (KeyError ''supplier''),
         \<lparr> tables = s_tables sA,
           load_audit = [audit_entry (env_ex (files3 customers_ok products_no_supplier
              transactions_ok)) b (Some fin) ''failed'' (Failure (KeyError ''supplier''))] \<rparr>)"
    and "length (s_tables sA ''public.customers'') = 1"
proof -
  let ?E = "env_ex (files3 customers_ok products_no_supplier transactions_ok)"
  let ?s1 = "started_session ?E b db_empty"
  have na: "\<not> aborted ?s1" by (simp add: started_session_def)
  note f = files3_simps [OF env_ex_simps(2)]
  from load_table_ok [OF wf_customer_cols f(1) acceptable_customers_ok [OF env_ex_simps(1)] na
      env_ex_simps(3)]
  obtain sA where A: "load_table ?E ''public.customers'' ''customers.csv'' customer_cols ''id'' ?s1
      = (Inr (length (DictReader customers_ok)), sA)" "\<not> aborted sA"
    and tA: "s_tables sA = (s_tables ?s1)(''public.customers'' :=
        fold (upsert_row (upsert_sql ''public.customers'' customer_cols ''id''))
          (proposed ?E ''public.customers'' customer_cols ''id'' (ticks ?s1)
             (DictReader customers_ok)) (s_tables ?s1 ''public.customers''))"
    by blast
  have fp: "files ?E ''products.csv'' =
      Some ([''id'', ''name'', ''category'', ''price''] # [''1'', ''Mat'', ''Sports'', ''19.99''] # [])"
    by (simp add: f products_no_supplier_def)
  have B: "load_table ?E ''public.products'' ''products.csv'' product_cols ''id'' sA
      = (Inl (KeyError ''supplier''), sA)"
    by (rule load_table_lacks [OF fp]) (simp_all add: product_cols_def)
  have la: "load_all ?E FILES [] ?s1 = (Inl (KeyError ''supplier''), sA)"
    unfolding FILES_cols by (simp add: A(1) B)
  have len: "length (s_tables sA ''public.customers'') = 1"
    unfolding tA DictReader_customers_ok
    by (simp add: started_session_def db_empty_def single_row_loaded)
  have m: "main ?E b db_empty = (Raised (KeyError ''supplier''),
         \<lparr> tables = s_tables sA,
           load_audit = [audit_entry ?E b (Some (clock ?E (ticks sA))) ''failed''
              (Failure (KeyError ''supplier''))] \<rparr>)"
    using main_fails [OF check_files3 [OF env_ex_simps(2)] fresh_db_empty la] A(2)
    by (simp add: db_empty_def)
  show ?thesis
    by (rule that [OF m len])
qed

lemma main_example_no_method:
  obtains sB :: session and fin where
    "main (env_ex (files3 customers_ok products_ok transactions_no_method)) b db_empty
      = (Raised (KeyError ''payment_method''),
         \<lparr> tables = s_tables sB,
           load_audit = [audit_entry (env_ex (files3 customers_ok products_ok
              transactions_no_method)) b (Some fin) ''failed''
              (Failure (KeyError ''payment_method''))] \<rparr>)"
    and "length (s_tables sB ''public.customers'') = 1"
    and "length (s_tables sB ''public.products'') = 1"
proof -
  let ?E = "env_ex (files3 customers_ok products_ok transactions_no_method)"
  let ?s1 = "started_session ?E b db_empty"
  have na: "\<not> aborted ?s1" by (simp add: started_session_def)
  note f = files3_simps [OF env_ex_simps(2)]
  from load_table_ok [OF wf_customer_cols f(1) acceptable_customers_ok [OF env_ex_simps(1)] na
      env_ex_simps(3)]
  obtain sA where A: "load_table ?E ''public.customers'' ''customers.csv'' customer_cols ''id'' ?s1
      = (Inr (length (DictReader customers_ok)), sA)" "\<not> aborted sA"
    and tA: "s_tables sA = (s_tables ?s1)(''public.customers'' :=
        fold (upsert_row (upsert_sql ''public.customers'' customer_cols ''id''))
          (proposed ?E ''public.customers'' customer_cols ''id'' (ticks ?s1)
             (DictReader customers_ok)) (s_tables ?s1 ''public.customers''))"
    by blast
  from load_table_ok [OF wf_product_cols f(2) acceptable_products_ok [OF env_ex_simps(1)] A(2)
      env_ex_simps(3)]
  obtain sB where B: "load_table ?E ''public.products'' ''products.csv'' product_cols ''id'' sA
      = (Inr (length (DictReader products_ok)), sB)" "\<not> aborted sB"
    and tB: "s_tables sB = (s_tables sA)(''public.products'' :=
        fold (upsert_row (upsert_sql ''public.products'' product_cols ''id''))
          (proposed ?E ''public.products'' product_cols ''id'' (ticks sA)
             (DictReader products_ok)) (s_tables sA ''public.products''))"
    by blast
  have ft: "files ?E ''transactions.csv'' =
      Some ([''id'', ''customer_id'', ''product_id'', ''quantity'', ''timestamp'']
            # [''1'', ''1'', ''1'', ''2'', ''2024-02-01T10:00:00''] # [])"
    by (simp add: f transactions_no_method_def)
  have C: "load_table ?E ''public.transactions'' ''transactions.csv'' transaction_cols ''id'' sB
      = (Inl (KeyError ''payment_method''), sB)"
    by (rule load_table_lacks [OF ft]) (simp_all add: transaction_cols_def)
  have la: "load_all ?E FILES [] ?s1 = (Inl (KeyError ''payment_method''), sB)"
    unfolding FILES_cols by (simp add: A(1) B(1) C)
  have lenA: "length (s_tables sA ''public.customers'') = 1"
    unfolding tA DictReader_customers_ok
    by (simp add: started_session_def db_empty_def single_row_loaded)
  have pA: "s_tables sA ''public.products'' = []"
    unfolding tA by (simp add: started_session_def db_empty_def)
  have len1: "length (s_tables sB ''public.customers'') = 1"
    unfolding tB using lenA by simp
  have len2: "length (s_tables sB ''public.products'') = 1"
    unfolding tB DictReader_products_ok by (simp add: pA single_row_loaded)
  have m: "main ?E b db_empty = (Raised (KeyError ''payment_method''),
         \<lparr> tables = s_tables sB,
           load_audit = [audit_entry ?E b (Some (clock ?E (ticks sB))) ''failed''
              (Failure (KeyError ''payment_method''))] \<rparr>)"
    using main_fails [OF check_files3 [OF env_ex_simps(2)] fresh_db_empty la] B(2)
    by (simp add: db_empty_def)
  show ?thesis
    by (rule that [OF m len1 len2])
qed

lemma not_acceptable_bad_quantity:
  assumes "coerce E = coerce_ex"
  shows "\<not> acceptable E ''public.transactions'' transaction_cols ''id''
     (dict_row transaction_cols [''1'', ''1'', ''1'', ''two'', ''2024-02-01T10:00:00'', ''card''])"
proof -
  let ?r = "dict_row transaction_cols [''1'', ''1'', ''1'', ''two'', ''2024-02-01T10:00:00'', ''card'']"
  have "coerce E ''public.transactions'' ''quantity'' (the (?r ''quantity'')) = None"
    by (simp add: transaction_cols_def dict_row_def assms coerce_ex_def digits_def)
  moreover have "''quantity'' \<in> set transaction_cols" by (simp add: transaction_cols_def)
  ultimately show ?thesis unfolding acceptable_def by blast
qed

lemma main_example_bad_quantity:
  "main (env_ex (files3 customers_ok products_ok transactions_bad_quantity)) b db_empty
     = (Raised InFailedSqlTransaction, db_empty)"
proof -
  let ?E = "env_ex (files3 customers_ok products_ok transactions_bad_quantity)"
  let ?s1 = "started_session ?E b db_empty"
  have na: "\<not> aborted ?s1" by (simp add: started_session_def)
  note f = files3_simps [OF env_ex_simps(2)]
  from load_table_ok [OF wf_customer_cols f(1) acceptable_customers_ok [OF env_ex_simps(1)] na
      env_ex_simps(3)]
  obtain sA where A: "load_table ?E ''public.customers'' ''customers.csv'' customer_cols ''id'' ?s1
      = (Inr (length (DictReader customers_ok)), sA)" "\<not> aborted sA"
    by blast
  from load_table_ok [OF wf_product_cols f(2) acceptable_products_ok [OF env_ex_simps(1)] A(2)
      env_ex_simps(3)]
  obtain sB where B: "load_table ?E ''public.products'' ''products.csv'' product_cols ''id'' sA
      = (Inr (length (DictReader products_ok)), sB)" "\<not> aborted sB"
    by blast
  have ft: "files ?E ''transactions.csv'' = Some (transaction_cols # tl transactions_bad_quantity)"
    by (simp add: f transactions_bad_quantity_def transaction_cols_def)
  have mem: "dict_row transaction_cols
       [''1'', ''1'', ''1'', ''two'', ''2024-02-01T10:00:00'', ''card'']
     \<in> set (DictReader (transaction_cols # tl transactions_bad_quantity))"
    by (simp add: DictReader_def transactions_bad_quantity_def)
  from load_table_refused [OF wf_transaction_cols ft subset_refl env_ex_simps(3) B(2) mem
      not_acceptable_bad_quantity [OF env_ex_simps(1)]]
  obtain e sC where C: "load_table ?E ''public.transactions'' ''transactions.csv''
      transaction_cols ''id'' sB = (Inl e, sC)" and ab: "aborted sC"
    by blast
  have la: "load_all ?E FILES [] ?s1 = (Inl e, sC)"
    unfolding FILES_cols by (simp add: A(1) B(1) C)
  from main_fails [OF check_files3 [OF env_ex_simps(2)] fresh_db_empty la] ab
  show ?thesis by simp
qed

lemma header_has_columns:
  assumes "files E f = Some (h # rest)" and "set cols \<subseteq> set h"
    and "files E f = Some lines" and "r \<in> set (DictReader lines)"
  shows "set cols \<subseteq> dom r"
proof -
  from assms(1,3) have "lines = h # rest" by simp
  with assms(4) have "dom r = set h" using DictReader_dom by blast
  with assms(2) show ?thesis by simp
qed

lemma not_lacks_column_FILES:
  assumes "files E ''customers.csv'' = Some (h1 # rest1)" and "set customer_cols \<subseteq> set h1"
    and "files E ''products.csv'' = Some (h2 # rest2)" and "set product_cols \<subseteq> set h2"
    and "files E ''transactions.csv'' = Some (h3 # rest3)" and "set transaction_cols \<subseteq> set h3"
  shows "\<not> lacks_column E FILES"
proof
  assume "lacks_column E FILES"
  then obtain t f cols pk lines r where m: "(t, f, cols, pk) \<in> set FILES"
    and f: "files E f = Some lines" and r: "r \<in> set (DictReader lines)"
    and n: "\<not> set cols \<subseteq> dom r"
    unfolding lacks_column_def by blast
  from m have "(f = ''customers.csv'' \<and> cols = customer_cols)
      \<or> (f = ''products.csv'' \<and> cols = product_cols)
      \<or> (f = ''transactions.csv'' \<and> cols = transaction_cols)"
    unfolding FILES_cols by auto
  then show False
  proof (elim disjE conjE)
    assume "f = ''customers.csv''" "cols = customer_cols"
    with header_has_columns [OF assms(1,2)] f r n show False by blast
  next
    assume "f = ''products.csv''" "cols = product_cols"
    with header_has_columns [OF assms(3,4)] f r n show False by blast
  next
    assume "f = ''transactions.csv''" "cols = transaction_cols"
    with header_has_columns [OF assms(5,6)] f r n show False by blast
  qed
qed

lemma read_to_end_env_ex: "read_to_end (env_ex fs) FILES"
  by (simp add: read_to_end_def FILES_def env_ex_def)

section \<open>The claims\<close>

text \<open>
  C6. When the input file of a configured dataset is absent, \<^verbatim>\<open>main\<close> raises
  \<^verbatim>\<open>FileNotFoundError\<close> for the first such dataset of \<^verbatim>\<open>FILES\<close> before it opens the
  connection: the committed content of the database, audit table included, is what it was.
\<close>

theorem missing_source_fails_fast:
  assumes "(t, f, c, p) \<in> set FILES" and "files E f = None"
  shows "\<exists>t' f' c' p'. (t', f', c', p') \<in> set FILES \<and> files E f' = None \<and>
           main E b db0 = (Raised (FileNotFoundError t'), db0)"
proof -
  from check_files_missing [OF assms] obtain t' f' c' p' where
    "(t', f', c', p') \<in> set FILES" "files E f' = None"
    "check_files E FILES = Some (FileNotFoundError t')" by blast
  then have "(t', f', c', p') \<in> set FILES \<and> files E f' = None \<and>
           main E b db0 = (Raised (FileNotFoundError t'), db0)"
    by (simp add: main_def)
  then show ?thesis by blast
qed

theorem missing_source_fails_fast_witness:
  "(''public.products'', ''products.csv'',
      [''id'', ''name'', ''category'', ''price'', ''supplier''], ''id'') \<in> set FILES
   \<and> files (env_ex [''customers.csv'' \<mapsto> customers_ok]) ''products.csv'' = None
   \<and> (\<exists>t' f' c' p'. (t', f', c', p') \<in> set FILES
        \<and> files (env_ex [''customers.csv'' \<mapsto> customers_ok]) f' = None
        \<and> main (env_ex [''customers.csv'' \<mapsto> customers_ok]) 7 db_empty
            = (Raised (FileNotFoundError t'), db_empty))"
proof -
  have 1: "(''public.products'', ''products.csv'',
      [''id'', ''name'', ''category'', ''price'', ''supplier''], ''id'') \<in> set FILES"
    by (simp add: FILES_def)
  have 2: "files (env_ex [''customers.csv'' \<mapsto> customers_ok]) ''products.csv'' = None"
    by (simp add: env_ex_def)
  from missing_source_fails_fast [OF 1 2, of 7 db_empty] 1 2 show ?thesis by blast
qed

text \<open>
  C8, counterexample. The claim says that the chunk size never changes the resulting rows.
  The loop reads the file while it loads: when the reader raises after three records (here
  \<^verbatim>\<open>csv.Error\<close>), a chunk size of two has already sent the first two rows to the storage,
  and a chunk size of five has sent nothing. Both loads raise the same error on a
  transaction that is not aborted, which the handler of \<^verbatim>\<open>main\<close> commits: two rows are
  committed with the small chunk, none with the large one.
\<close>

theorem chunk_size_changes_committed_rows_counterexample:
  "\<not> aborted session_empty
   \<and> fst (load_table_chunked 2 (env_csv_error [''products.csv'' \<mapsto> products_twice])
          ''public.products'' ''products.csv''
          [''id'', ''name'', ''category'', ''price'', ''supplier''] ''id'' session_empty)
       = Inl CsvError
   \<and> fst (load_table_chunked 5 (env_csv_error [''products.csv'' \<mapsto> products_twice])
          ''public.products'' ''products.csv''
          [''id'', ''name'', ''category'', ''price'', ''supplier''] ''id'' session_empty)
       = Inl CsvError
   \<and> length (tables (commit db_empty
          (snd (load_table_chunked 2 (env_csv_error [''products.csv'' \<mapsto> products_twice])
             ''public.products'' ''products.csv''
             [''id'', ''name'', ''category'', ''price'', ''supplier''] ''id'' session_empty)))
        ''public.products'') = 2
   \<and> tables (commit db_empty
          (snd (load_table_chunked 5 (env_csv_error [''products.csv'' \<mapsto> products_twice])
             ''public.products'' ''products.csv''
             [''id'', ''name'', ''category'', ''price'', ''supplier''] ''id'' session_empty)))
        ''public.products'' = []"
  by (simp add: eval_defs env_csv_error_def products_twice_def db_empty_def commit_def)

text \<open>
  C8, as amended. For a file that the reader reads to its end, the chunk size does not
  change what \<^verbatim>\<open>load_table\<close> does to the tables: started on a transaction that is not
  aborted, the loop with chunk size \<open>n\<close> and the loop with chunk size \<open>m\<close> return the same
  result and leave the same tables, audit rows and transaction state. A successful load of
  \<open>k\<close> records with chunk size \<open>n > 0\<close> calls \<^verbatim>\<open>executemany\<close> once per full chunk of \<open>n\<close>
  rows and once more for the rows that remain, if any: \<open>(k + n - 1) div n\<close> calls that carry
  the \<open>k\<close> rows.
\<close>

theorem chunking_transparent:
  assumes "\<not> aborted s" and "read_error E p = None"
  shows "fst (load_table_chunked n E t p cols pk s) = fst (load_table_chunked m E t p cols pk s)
    \<and> s_tables (snd (load_table_chunked n E t p cols pk s)) =
        s_tables (snd (load_table_chunked m E t p cols pk s))
    \<and> s_audit (snd (load_table_chunked n E t p cols pk s)) =
        s_audit (snd (load_table_chunked m E t p cols pk s))
    \<and> aborted (snd (load_table_chunked n E t p cols pk s)) =
        aborted (snd (load_table_chunked m E t p cols pk s))
    \<and> (\<forall>k s'. 0 < n \<and> load_table_chunked n E t p cols pk s = (Inr k, s') \<longrightarrow>
        (\<exists>new. sent s' = sent s @ new \<and> length (concat new) = k \<and>
           length new = (k + n - 1) div n \<and>
           (\<forall>b \<in> set new. b \<noteq> [] \<and> length b \<le> n) \<and>
           (\<forall>i. Suc i < length new \<longrightarrow> length (new ! i) = n)))"
proof -
  have "\<exists>new. sent s' = sent s @ new \<and> length (concat new) = k \<and>
           length new = (k + n - 1) div n \<and>
           (\<forall>b \<in> set new. b \<noteq> [] \<and> length b \<le> n) \<and>
           (\<forall>i. Suc i < length new \<longrightarrow> length (new ! i) = n)"
    if n: "0 < n" and run: "load_table_chunked n E t p cols pk s = (Inr k, s')" for k s'
  proof -
    from load_table_chunked_success [OF run] obtain lines where
      k: "k = length (DictReader lines)" and post: "loop_post E n cols (DictReader lines) [] s s'"
      by blast
    from post obtain new where new: "sent s' = sent s @ new"
      "concat new = [] @ stamped E (ticks s) cols (DictReader lines)" "chunked n new"
      unfolding loop_post_def by blast
    have mx: "max n 1 = n" using n by simp
    from new(3) have c1: "\<forall>b \<in> set new. b \<noteq> [] \<and> length b \<le> n"
      and c2: "\<forall>i. Suc i < length new \<longrightarrow> length (new ! i) = n"
      unfolding chunked_def mx by simp_all
    have len: "length (concat new) = k" using new(2) k by simp
    have "length new = (length (concat new) + n - 1) div n"
      using n c1 c2 by (rule chunk_count)
    with len have "length new = (k + n - 1) div n" by simp
    with new(1) len c1 c2 show ?thesis by blast
  qed
  with load_table_chunked_independent [OF assms, where n = n and t = t and cols = cols
      and pk = pk and m = m] show ?thesis by blast
qed

theorem chunking_transparent_witness:
  "\<not> aborted session_empty
   \<and> read_error (env_ex [''products.csv'' \<mapsto> products_twice]) ''products.csv'' = None
   \<and> fst (load_table_chunked 2 (env_ex [''products.csv'' \<mapsto> products_twice]) ''public.products''
          ''products.csv'' [''id'', ''name'', ''category'', ''price'', ''supplier''] ''id''
          session_empty) = Inr 3
   \<and> fst (load_table_chunked 5 (env_ex [''products.csv'' \<mapsto> products_twice]) ''public.products''
          ''products.csv'' [''id'', ''name'', ''category'', ''price'', ''supplier''] ''id''
          session_empty) = Inr 3
   \<and> s_tables (snd (load_table_chunked 2 (env_ex [''products.csv'' \<mapsto> products_twice])
          ''public.products'' ''products.csv''
          [''id'', ''name'', ''category'', ''price'', ''supplier''] ''id'' session_empty)) =
       s_tables (snd (load_table_chunked 5 (env_ex [''products.csv'' \<mapsto> products_twice])
          ''public.products'' ''products.csv''
          [''id'', ''name'', ''category'', ''price'', ''supplier''] ''id'' session_empty))
   \<and> (\<exists>new. sent (snd (load_table_chunked 2 (env_ex [''products.csv'' \<mapsto> products_twice])
          ''public.products'' ''products.csv''
          [''id'', ''name'', ''category'', ''price'', ''supplier''] ''id'' session_empty)) = new
        \<and> length new = 2 \<and> length (concat new) = 3)"
proof -
  let ?E = "env_ex [''products.csv'' \<mapsto> products_twice]"
  let ?cols = "[''id'', ''name'', ''category'', ''price'', ''supplier'']"
  let ?run = "\<lambda>n. load_table_chunked n ?E ''public.products'' ''products.csv'' ?cols ''id''
     session_empty"
  have na: "\<not> aborted session_empty" by (simp add: session_empty_def)
  have rd: "read_error ?E ''products.csv'' = None" by (simp add: env_ex_def)
  have r2: "fst (?run 2) = Inr 3"
    by (simp add: eval_defs products_twice_def)
  then have run: "?run 2 = (Inr 3, snd (?run 2))" by (metis prod.collapse)
  note inst = chunking_transparent [OF na rd, where n = 2 and t = "''public.products''"
      and cols = ?cols and pk = "''id''" and m = 5]
  from inst have eq: "fst (?run 2) = fst (?run 5)"
    and tabs: "s_tables (snd (?run 2)) = s_tables (snd (?run 5))" by simp_all
  from inst run obtain new where new: "sent (snd (?run 2)) = sent session_empty @ new"
    "length (concat new) = 3" "length new = (3 + 2 - 1) div 2"
    by (metis zero_less_numeral)
  have "sent session_empty = []" by (simp add: session_empty_def)
  with new have "sent (snd (?run 2)) = new \<and> length new = 2 \<and> length (concat new) = 3"
    by simp
  with na rd r2 eq tabs show ?thesis by (metis (no_types, lifting))
qed

text \<open>
  C10, counterexample. The claim says that a record read later never carries an earlier
  timestamp than a record read before it. The timestamp is a reading of the wall clock
  (\<^verbatim>\<open>datetime.utcnow()\<close>), which can be set back while the load runs: on a machine whose
  clock loses ten units between readings, a successful load of three records sends them
  with the timestamps 100, 90 and 80.
\<close>

theorem later_record_earlier_timestamp_counterexample:
  "fst (load_table (env_clock_back [''products.csv'' \<mapsto> products_twice]) ''public.products''
        ''products.csv'' [''id'', ''name'', ''category'', ''price'', ''supplier''] ''id''
        session_empty) = Inr 3
   \<and> map last (concat (sent (snd (load_table
        (env_clock_back [''products.csv'' \<mapsto> products_twice])
        ''public.products'' ''products.csv''
        [''id'', ''name'', ''category'', ''price'', ''supplier''] ''id'' session_empty))))
      = [PTime 100, PTime 90, PTime 80]"
  by (simp add: eval_defs env_clock_back_def products_twice_def)

text \<open>
  C10, as amended. \<^verbatim>\<open>load_table\<close> reads the clock once for each record, when it builds the
  parameter row of that record: the \<open>i\<close>-th row it sends carries the reading number
  \<open>ticks s + i\<close> as its \<^verbatim>\<open>_ingested_at\<close>, whatever the chunk the row travels in. A successful
  load sends a row for every record. When the clock never goes back, a row read later never
  carries an earlier timestamp than a row read before it.
\<close>

theorem ingestion_timestamp_per_record:
  fixes E :: env and s :: session and t p pk :: string and cols :: "string list"
  assumes "files E p = Some lines"
  defines "new \<equiv> drop (length (concat (sent s)))
                    (concat (sent (snd (load_table E t p cols pk s))))"
  shows "length new \<le> length (DictReader lines)
    \<and> (\<forall>i < length new.
          new ! i = map (\<lambda>c. the ((DictReader lines ! i) c)) cols
                      @ [PTime (clock E (ticks s + i))])
    \<and> (\<forall>m s'. load_table E t p cols pk s = (Inr m, s') \<longrightarrow>
          length new = length (DictReader lines))
    \<and> ((\<forall>a b. a \<le> b \<longrightarrow> clock E a \<le> clock E b) \<longrightarrow>
          (\<forall>i j. i \<le> j \<and> j < length new \<longrightarrow>
             time_of (last (new ! i)) \<le> time_of (last (new ! j))))"
proof -
  let ?rs = "DictReader lines"
  from load_table_sent [OF assms(1), of t cols pk s] obtain k where
    k: "concat (sent (snd (load_table E t p cols pk s))) =
          concat (sent s) @ take k (stamped E (ticks s) cols ?rs)" by blast
  have new: "new = take k (stamped E (ticks s) cols ?rs)"
    unfolding new_def k by simp
  have len: "length new \<le> length ?rs" unfolding new by simp
  have nth: "new ! i = map (\<lambda>c. the ((?rs ! i) c)) cols @ [PTime (clock E (ticks s + i))]"
    if "i < length new" for i
  proof -
    from that have "i < k" "i < length ?rs" unfolding new by simp_all
    then show ?thesis unfolding new by (simp add: stamped_nth)
  qed
  have succ: "length new = length ?rs" if "load_table E t p cols pk s = (Inr m, s')" for m s'
  proof -
    from load_table_sent_success(1) [OF that assms(1)] that
    have "new = stamped E (ticks s) cols ?rs" unfolding new_def by simp
    then show ?thesis by simp
  qed
  have mono: "time_of (last (new ! i)) \<le> time_of (last (new ! j))"
    if m: "\<forall>a b. a \<le> b \<longrightarrow> clock E a \<le> clock E b" and ij: "i \<le> j \<and> j < length new" for i j
  proof -
    from ij have "i < length new" "j < length new" by simp_all
    then have "time_of (last (new ! i)) = clock E (ticks s + i)"
      "time_of (last (new ! j)) = clock E (ticks s + j)"
      by (simp_all add: nth time_of_def)
    with m ij show ?thesis by simp
  qed
  from len nth succ mono show ?thesis by blast
qed

theorem ingestion_timestamp_per_record_witness:
  "files (env_ex [''products.csv'' \<mapsto> products_twice]) ''products.csv'' = Some products_twice
   \<and> fst (load_table (env_ex [''products.csv'' \<mapsto> products_twice]) ''public.products''
        ''products.csv'' [''id'', ''name'', ''category'', ''price'', ''supplier''] ''id''
        session_empty) = Inr 3
   \<and> map last (concat (sent (snd (load_table (env_ex [''products.csv'' \<mapsto> products_twice])
        ''public.products'' ''products.csv''
        [''id'', ''name'', ''category'', ''price'', ''supplier''] ''id'' session_empty))))
      = [PTime 1000, PTime 1010, PTime 1020]"
proof -
  let ?E = "env_ex [''products.csv'' \<mapsto> products_twice]"
  let ?cols = "[''id'', ''name'', ''category'', ''price'', ''supplier'']"
  let ?run = "load_table ?E ''public.products'' ''products.csv'' ?cols ''id'' session_empty"
  define new where "new = drop (length (concat (sent session_empty))) (concat (sent (snd ?run)))"
  have f: "files ?E ''products.csv'' = Some products_twice" by (simp add: env_ex_def)
  have r: "fst ?run = Inr 3" by (simp add: eval_defs products_twice_def)
  then have run: "?run = (Inr 3, snd ?run)" by (metis prod.collapse)
  have e: "sent session_empty = []" "ticks session_empty = 0" by (simp_all add: session_empty_def)
  have c: "clock ?E = clock_ex" by (simp add: env_ex_def)
  note inst = ingestion_timestamp_per_record [OF f, of session_empty "''public.products''"
      ?cols "''id''", folded new_def]
  from inst run have len: "length new = length (DictReader products_twice)" by blast
  have n3: "length (DictReader products_twice) = 3"
    by (simp add: DictReader_def products_twice_def)
  from inst have nth: "\<forall>i < length new. new ! i =
      map (\<lambda>c. the ((DictReader products_twice ! i) c)) ?cols @ [PTime (clock ?E (ticks session_empty + i))]"
    by blast
  have l: "last (new ! i) = PTime (clock_ex i)" if "i < 3" for i
    using nth that len n3 by (simp add: e c)
  have "length new = Suc (Suc (Suc 0))" using len n3 by simp
  then have "new = [new ! 0, new ! Suc 0, new ! Suc (Suc 0)]"
    by (auto simp: length_Suc_conv)
  then have "map last new = [last (new ! 0), last (new ! Suc 0), last (new ! Suc (Suc 0))]"
    by (metis list.simps(8,9))
  then have "map last new = [PTime 1000, PTime 1010, PTime 1020]"
    by (simp add: l clock_ex_def)
  moreover have "new = concat (sent (snd ?run))" by (simp add: new_def e)
  ultimately show ?thesis using f r by simp
qed

text \<open>
  C2, counterexample. The claim says that a record missing a declared column never makes the
  loader raise. A file whose header has no \<^verbatim>\<open>supplier\<close> column gives records without that key,
  and \<^verbatim>\<open>row[c]\<close> raises \<^verbatim>\<open>KeyError\<close> at its first record; nothing is sent to the storage.
\<close>

theorem missing_column_raises_counterexample:
  "load_table (env_ex [''products.csv'' \<mapsto> products_no_supplier]) ''public.products''
      ''products.csv'' [''id'', ''name'', ''category'', ''price'', ''supplier''] ''id''
      session_empty
    = (Inl (KeyError ''supplier''), session_empty)"
  by (simp add: eval_defs products_no_supplier_def)

text \<open>
  C2, as amended. What the loader tolerates is a short line: when the header names every
  declared column, the parameter row is built without an error, and the columns the line
  does not reach are \<^verbatim>\<open>None\<close> (the reader's \<^verbatim>\<open>restval\<close>). When the header lacks a declared
  column, building the row raises \<^verbatim>\<open>KeyError\<close> for such a column, and \<^verbatim>\<open>load_table\<close> raises
  it at the first record of the file, leaving the session as it was. When the header names
  every declared column of a file that is read to its end, \<^verbatim>\<open>load_table\<close> on a transaction
  that is not aborted never raises \<^verbatim>\<open>KeyError\<close>: it returns the number of records when the
  storage accepts every parameter row, \<^verbatim>\<open>None\<close> values included, and otherwise it raises
  the error of the storage and leaves the transaction aborted.
\<close>

theorem short_line_is_none_missing_header_raises:
  "(set cols \<subseteq> set fieldnames \<longrightarrow>
      (\<exists>vs. row_values cols (dict_row fieldnames line) = Inr vs \<and> length vs = length cols \<and>
         (\<forall>i < length cols. cols ! i \<in> set (drop (length line) fieldnames) \<longrightarrow> vs ! i = PNone)))
   \<and> (\<not> set cols \<subseteq> set fieldnames \<longrightarrow>
      (\<exists>c \<in> set cols. c \<notin> set fieldnames \<and>
         row_values cols (dict_row fieldnames line) = Inl (KeyError c)))
   \<and> (files E p = Some (fieldnames # rest) \<and> line \<in> set rest \<and> line \<noteq> [] \<and>
        \<not> set cols \<subseteq> set fieldnames \<longrightarrow>
      (\<exists>c \<in> set cols. c \<notin> set fieldnames \<and>
         load_table E t p cols pk s = (Inl (KeyError c), s)))
   \<and> (files E p = Some (fieldnames # rest) \<and> set cols \<subseteq> set fieldnames \<and>
        read_error E p = None \<and> \<not> aborted s \<longrightarrow>
      (\<forall>c. fst (load_table E t p cols pk s) \<noteq> Inl (KeyError c)) \<and>
      (if list_all (storable E (upsert_sql t cols pk))
            (stamped E (ticks s) cols (DictReader (fieldnames # rest)))
       then fst (load_table E t p cols pk s) = Inr (length (DictReader (fieldnames # rest)))
          \<and> \<not> aborted (snd (load_table E t p cols pk s))
       else (\<exists>e. fst (load_table E t p cols pk s) = Inl e)
          \<and> aborted (snd (load_table E t p cols pk s))))"
proof -
  have 4: "(\<forall>c. fst (load_table E t p cols pk s) \<noteq> Inl (KeyError c)) \<and>
      (if list_all (storable E (upsert_sql t cols pk))
            (stamped E (ticks s) cols (DictReader (fieldnames # rest)))
       then fst (load_table E t p cols pk s) = Inr (length (DictReader (fieldnames # rest)))
          \<and> \<not> aborted (snd (load_table E t p cols pk s))
       else (\<exists>e. fst (load_table E t p cols pk s) = Inl e)
          \<and> aborted (snd (load_table E t p cols pk s)))"
    if "files E p = Some (fieldnames # rest) \<and> set cols \<subseteq> set fieldnames \<and>
        read_error E p = None \<and> \<not> aborted s"
    using that load_table_header_complete [where E = E and p = p and fieldnames = fieldnames
        and rest = rest and cols = cols and s = s and n = 1000 and t = t and pk = pk]
    unfolding load_table_def by blast
  with row_values_dict_row_ok [of cols fieldnames line]
    row_values_dict_row_err [of cols fieldnames line]
    load_table_header_lacks_column [of E p fieldnames rest line cols 1000 t pk s]
  show ?thesis unfolding load_table_def by blast
qed

theorem short_line_is_none_missing_header_raises_witness:
  "set [''id'', ''name'', ''category'', ''price'', ''supplier'']
      \<subseteq> set [''id'', ''name'', ''category'', ''price'', ''supplier'']
   \<and> (\<exists>vs. row_values [''id'', ''name'', ''category'', ''price'', ''supplier'']
         (dict_row [''id'', ''name'', ''category'', ''price'', ''supplier'']
            [''1'', ''Mat'', ''Sports'']) = Inr vs
        \<and> vs ! 3 = PNone \<and> vs ! 4 = PNone)
   \<and> \<not> set [''id'', ''name'', ''category'', ''price'', ''supplier'']
      \<subseteq> set [''id'', ''name'', ''category'', ''price'']
   \<and> (\<exists>c. c \<notin> set [''id'', ''name'', ''category'', ''price'']
        \<and> row_values [''id'', ''name'', ''category'', ''price'', ''supplier'']
         (dict_row [''id'', ''name'', ''category'', ''price'']
            [''1'', ''Mat'', ''Sports'', ''19.99'']) = Inl (KeyError c))
   \<and> files (env_ex [''products.csv'' \<mapsto> products_no_supplier]) ''products.csv''
        = Some ([''id'', ''name'', ''category'', ''price''] # [[''1'', ''Mat'', ''Sports'', ''19.99'']])
   \<and> (\<exists>c. load_table (env_ex [''products.csv'' \<mapsto> products_no_supplier]) ''public.products''
        ''products.csv'' [''id'', ''name'', ''category'', ''price'', ''supplier''] ''id''
        session_empty = (Inl (KeyError c), session_empty))
   \<and> files (env_ex [''products.csv'' \<mapsto> products_short_line]) ''products.csv''
        = Some ([''id'', ''name'', ''category'', ''price'', ''supplier'']
                # [[''1'', ''Mat'', ''Sports'']])
   \<and> read_error (env_ex [''products.csv'' \<mapsto> products_short_line]) ''products.csv'' = None
   \<and> \<not> aborted session_empty
   \<and> fst (load_table (env_ex [''products.csv'' \<mapsto> products_short_line]) ''public.products''
        ''products.csv'' [''id'', ''name'', ''category'', ''price'', ''supplier''] ''id''
        session_empty) = Inr 1
   \<and> \<not> aborted (snd (load_table (env_ex [''products.csv'' \<mapsto> products_short_line])
        ''public.products'' ''products.csv''
        [''id'', ''name'', ''category'', ''price'', ''supplier''] ''id'' session_empty))"
proof -
  let ?E2 = "env_ex [''products.csv'' \<mapsto> products_short_line]"
  let ?l2 = "[''1'', ''Mat'', ''Sports'']"
  let ?cols = "[''id'', ''name'', ''category'', ''price'', ''supplier'']"
  let ?h1 = "[''id'', ''name'', ''category'', ''price'']"
  let ?l1 = "[''1'', ''Mat'', ''Sports'', ''19.99'']"
  let ?E = "env_ex [''products.csv'' \<mapsto> products_no_supplier]"
  have a: "set ?cols \<subseteq> set ?cols" by simp
  have b: "\<not> set ?cols \<subseteq> set ?h1" by simp
  have f: "files ?E ''products.csv'' = Some (?h1 # [?l1])"
    by (simp add: env_ex_def products_no_supplier_def)
  have m: "?l1 \<in> set [?l1]" "?l1 \<noteq> []" by simp_all
  from short_line_is_none_missing_header_raises [of ?cols ?cols "[''1'', ''Mat'', ''Sports'']"] a
  obtain vs where vs: "row_values ?cols (dict_row ?cols [''1'', ''Mat'', ''Sports'']) = Inr vs"
    "\<forall>i < length ?cols. ?cols ! i \<in> set (drop (length [''1'', ''Mat'', ''Sports'']) ?cols)
        \<longrightarrow> vs ! i = PNone"
    by blast
  from vs(2) [rule_format, of 3] vs(2) [rule_format, of 4] have "vs ! 3 = PNone" "vs ! 4 = PNone"
    by simp_all
  with vs(1) have 1: "\<exists>vs. row_values ?cols (dict_row ?cols [''1'', ''Mat'', ''Sports'']) = Inr vs
        \<and> vs ! 3 = PNone \<and> vs ! 4 = PNone" by blast
  from short_line_is_none_missing_header_raises [of ?cols ?h1 ?l1 ?E "''products.csv''" "[?l1]"
      "''public.products''" "''id''" session_empty] b f m
  have 2: "\<exists>c. c \<notin> set ?h1 \<and> row_values ?cols (dict_row ?h1 ?l1) = Inl (KeyError c)"
    and 3: "\<exists>c. load_table ?E ''public.products'' ''products.csv'' ?cols ''id'' session_empty
        = (Inl (KeyError c), session_empty)"
    by blast+
  have f2: "files ?E2 ''products.csv'' = Some (?cols # [?l2])"
    by (simp add: env_ex_def products_short_line_def)
  have rd: "read_error ?E2 ''products.csv'' = None" by (simp add: env_ex_def)
  have na: "\<not> aborted session_empty" by (simp add: session_empty_def)
  have st: "list_all (storable ?E2 (upsert_sql ''public.products'' ?cols ''id''))
      (stamped ?E2 (ticks session_empty) ?cols (DictReader (?cols # [?l2])))"
    by (simp add: storable_def eval_defs)
  have n1: "length (DictReader (?cols # [?l2])) = 1" by (simp add: DictReader_def)
  from short_line_is_none_missing_header_raises [of ?cols ?cols ?l2 ?E2 "''products.csv''" "[?l2]"
      "''public.products''" "''id''" session_empty] a f2 rd na st
  have 4: "fst (load_table ?E2 ''public.products'' ''products.csv'' ?cols ''id'' session_empty)
        = Inr (length (DictReader (?cols # [?l2])))"
    and 5: "\<not> aborted (snd (load_table ?E2 ''public.products'' ''products.csv'' ?cols ''id''
        session_empty))"
    by presburger+
  from a 1 b 2 f 3 f2 rd na 4 [unfolded n1] 5 show ?thesis by blast
qed

text \<open>
  C4. One execution of the statement of \<^verbatim>\<open>upsert_sql\<close> for a well-formed record: when no row
  of the table has the record's key, a row is appended that holds the record's values as
  stored and the ingestion timestamp, and nothing else; when a row has the key, every column
  of the descriptor and the ingestion timestamp are overwritten with the record's, and the
  other rows are untouched. A table with at most one row per key has at most one row per
  key afterwards.
\<close>

theorem upsert_inserts_or_overwrites:
  fixes E :: env and r :: "string \<rightharpoonup> pyval" and T :: table
  assumes "wf_desc cols pk" and "acceptable E t cols pk r"
    and "distinct (map (\<lambda>x. x pk) T)"
  shows "\<exists>T'. execute_upsert E (upsert_sql t cols pk)
             (map (\<lambda>c. the (r c)) cols @ [PTime now]) T = Inr T'
    \<and> distinct (map (\<lambda>x. x pk) T')
    \<and> (if coerce E t pk (the (r pk)) \<in> set (map (\<lambda>x. x pk) T)
       then length T' = length T \<and>
         (\<forall>i < length T.
            if (T ! i) pk = coerce E t pk (the (r pk))
            then (\<forall>c \<in> set cols. (T' ! i) c = coerce E t c (the (r c))) \<and>
                 (T' ! i) ''_ingested_at'' = Some (PTime now) \<and>
                 (\<forall>c. c \<notin> set cols \<and> c \<noteq> ''_ingested_at'' \<longrightarrow> (T' ! i) c = (T ! i) c)
            else T' ! i = T ! i)
       else \<exists>new. T' = T @ [new] \<and>
         (\<forall>c \<in> set cols. new c = coerce E t c (the (r c))) \<and>
         new ''_ingested_at'' = Some (PTime now) \<and>
         (\<forall>c. c \<notin> set cols \<and> c \<noteq> ''_ingested_at'' \<longrightarrow> new c = None))"
proof -
  let ?q = "upsert_sql t cols pk"
  define ex where "ex = the_excluded E ?q (map (\<lambda>c. the (r c)) cols @ [PTime now])"
  define k where "k = coerce E t pk (the (r pk))"
  define T' where "T' = upsert_row ?q ex T"
  note exv = the_excluded_record [OF assms(1,2), of now, folded ex_def]
  from assms(1) have pk: "pk \<in> set cols" and ts: "''_ingested_at'' \<notin> set cols"
    by (simp_all add: wf_desc_def)
  have exk: "ex pk = k" using exv [of pk] pk by (simp add: k_def)
  have run: "execute_upsert E ?q (map (\<lambda>c. the (r c)) cols @ [PTime now]) T = Inr T'"
    unfolding T'_def ex_def by (rule execute_upsert_record [OF assms(1,2)])
  have d: "distinct (map (\<lambda>x. x pk) T')"
    unfolding T'_def using distinct_upsert_row [of ?q T ex] assms(3) by simp
  have branch: "if k \<in> set (map (\<lambda>x. x pk) T)
       then length T' = length T \<and>
         (\<forall>i < length T.
            if (T ! i) pk = k
            then (\<forall>c \<in> set cols. (T' ! i) c = coerce E t c (the (r c))) \<and>
                 (T' ! i) ''_ingested_at'' = Some (PTime now) \<and>
                 (\<forall>c. c \<notin> set cols \<and> c \<noteq> ''_ingested_at'' \<longrightarrow> (T' ! i) c = (T ! i) c)
            else T' ! i = T ! i)
       else \<exists>new. T' = T @ [new] \<and>
         (\<forall>c \<in> set cols. new c = coerce E t c (the (r c))) \<and>
         new ''_ingested_at'' = Some (PTime now) \<and>
         (\<forall>c. c \<notin> set cols \<and> c \<noteq> ''_ingested_at'' \<longrightarrow> new c = None)"
  proof (cases "k \<in> set (map (\<lambda>x. x pk) T)")
    case True
    have len: "length T' = length T"
      unfolding T'_def using True length_upsert_row [of ?q ex T] exk by simp
    have rows: "if (T ! i) pk = k
            then (\<forall>c \<in> set cols. (T' ! i) c = coerce E t c (the (r c))) \<and>
                 (T' ! i) ''_ingested_at'' = Some (PTime now) \<and>
                 (\<forall>c. c \<notin> set cols \<and> c \<noteq> ''_ingested_at'' \<longrightarrow> (T' ! i) c = (T ! i) c)
            else T' ! i = T ! i" if i: "i < length T" for i
    proof (cases "(T ! i) pk = k")
      case True
      then have row: "T' ! i = merge_row ?q ex (T ! i)"
        unfolding T'_def using nth_upsert_row [OF i, of ?q ex] exk by simp
      have key: "(T ! i) pk = coerce E t pk (the (r pk))" using True by (simp add: k_def)
      have m: "merge_row ?q ex (T ! i) c =
          (if c \<in> set cols then coerce E t c (the (r c))
           else if c = ''_ingested_at'' then Some (PTime now) else (T ! i) c)" for c
        unfolding ex_def using assms(1,2) key by (rule merged_row_columns)
      show ?thesis using True ts by (simp add: row m)
    next
      case False
      then have "T' ! i = T ! i"
        unfolding T'_def using nth_upsert_row [OF i, of ?q ex] exk by simp
      with False show ?thesis by simp
    qed
    from True len rows show ?thesis by simp
  next
    case False
    then have "\<not> (\<exists>x \<in> set T. x pk = ex pk)" using exk key_mem [of T pk k] by simp
    then have "T' = T @ [ex]" unfolding T'_def by (simp add: upsert_row_def)
    moreover have "\<forall>c \<in> set cols. ex c = coerce E t c (the (r c))" by (simp add: exv)
    moreover have "ex ''_ingested_at'' = Some (PTime now)" using ts by (simp add: exv)
    moreover have "\<forall>c. c \<notin> set cols \<and> c \<noteq> ''_ingested_at'' \<longrightarrow> ex c = None"
      by (simp add: exv)
    ultimately show ?thesis using False by auto
  qed
  from run d branch show ?thesis unfolding k_def by blast
qed

theorem upsert_inserts_or_overwrites_witness:
  "wf_desc product_cols ''id''
   \<and> acceptable (env_ex Map.empty) ''public.products'' product_cols ''id'' mat_pro
   \<and> distinct (map (\<lambda>x. x ''id'') [old_mat])
   \<and> (\<exists>T'. execute_upsert (env_ex Map.empty) (upsert_sql ''public.products'' product_cols ''id'')
          (map (\<lambda>c. the (mat_pro c)) product_cols @ [PTime 1010]) [old_mat] = Inr T'
        \<and> length T' = 1
        \<and> (T' ! 0) ''id'' = Some (PStr ''1'')
        \<and> (T' ! 0) ''name'' = Some (PStr ''Mat Pro'')
        \<and> (T' ! 0) ''price'' = Some (PStr ''24.99'')
        \<and> (T' ! 0) ''_ingested_at'' = Some (PTime 1010))"
proof -
  let ?E = "env_ex Map.empty"
  have d: "distinct (map (\<lambda>x. x ''id'') [old_mat])" by simp
  have k: "coerce ?E ''public.products'' ''id'' (the (mat_pro ''id'')) = Some (PStr ''1'')"
    by (simp add: mat_pro_values env_ex_def coerce_ex_def digits_def)
  have old: "old_mat ''id'' = Some (PStr ''1'')" by (simp add: old_mat_def)
  from upsert_inserts_or_overwrites [OF wf_product_cols acceptable_mat_pro d, of 1010]
  obtain T' where run: "execute_upsert ?E (upsert_sql ''public.products'' product_cols ''id'')
          (map (\<lambda>c. the (mat_pro c)) product_cols @ [PTime 1010]) [old_mat] = Inr T'"
    and len: "length T' = length [old_mat]"
    and row: "\<forall>c \<in> set product_cols.
        (T' ! 0) c = coerce ?E ''public.products'' c (the (mat_pro c))"
      "(T' ! 0) ''_ingested_at'' = Some (PTime 1010)"
    unfolding k by (auto simp: old)
  have "(T' ! 0) ''id'' = Some (PStr ''1'')" "(T' ! 0) ''name'' = Some (PStr ''Mat Pro'')"
    "(T' ! 0) ''price'' = Some (PStr ''24.99'')"
    using row(1) by (simp_all add: product_cols_def mat_pro_values env_ex_def coerce_ex_def digits_def)
  with run len row(2) wf_product_cols acceptable_mat_pro d show ?thesis by auto
qed

text \<open>
  C9. A file may hold several records with the same key. When the file is read to its end
  and every record of it is well formed, \<^verbatim>\<open>load_table\<close> succeeds and reports every record
  as submitted; the table keeps one row per key; and for every record that no later record
  of the file shares its key with, the table holds a row with that key whose descriptor
  columns are that record's stored values and whose ingestion timestamp is the clock
  reading taken for that record.
\<close>

theorem duplicate_keys_last_wins:
  fixes E :: env and s :: session
  assumes "wf_desc cols pk" and "files E p = Some lines"
    and "\<forall>r \<in> set (DictReader lines). acceptable E t cols pk r"
    and "\<not> aborted s" and "distinct (map (\<lambda>x. x pk) (s_tables s t))"
    and "read_error E p = None"
  shows "\<exists>s'. load_table E t p cols pk s = (Inr (length (DictReader lines)), s')
    \<and> \<not> aborted s'
    \<and> distinct (map (\<lambda>x. x pk) (s_tables s' t))
    \<and> (\<forall>j < length (DictReader lines).
         (\<forall>j'. j < j' \<and> j' < length (DictReader lines) \<longrightarrow>
            coerce E t pk (the ((DictReader lines ! j') pk))
              \<noteq> coerce E t pk (the ((DictReader lines ! j) pk))) \<longrightarrow>
         (\<exists>i < length (s_tables s' t).
            (\<forall>c \<in> set cols.
               (s_tables s' t ! i) c = coerce E t c (the ((DictReader lines ! j) c))) \<and>
            (s_tables s' t ! i) ''_ingested_at'' = Some (PTime (clock E (ticks s + j)))))"
proof -
  let ?rs = "DictReader lines"
  let ?q = "upsert_sql t cols pk"
  let ?exs = "proposed E t cols pk (ticks s) ?rs"
  define s' where "s' = snd (load_table E t p cols pk s)"
  define T' where "T' = fold (upsert_row ?q) ?exs (s_tables s t)"
  note la = load_table_acceptable [OF assms(1-4,6), of 1000, folded load_table_def,
      folded s'_def]
  have run: "load_table E t p cols pk s = (Inr (length ?rs), s')"
    using la(1) unfolding s'_def by (metis prod.collapse)
  have tab: "s_tables s' t = T'" unfolding la(2) T'_def by simp
  have d: "distinct (map (\<lambda>x. x pk) T')"
    unfolding T'_def using distinct_fold_upsert [of ?q "s_tables s t" ?exs] assms(5) by simp
  from assms(1) have pk: "pk \<in> set cols" by (simp add: wf_desc_def)
  have last: "\<exists>i < length T'.
            (\<forall>c \<in> set cols. (T' ! i) c = coerce E t c (the ((?rs ! j) c))) \<and>
            (T' ! i) ''_ingested_at'' = Some (PTime (clock E (ticks s + j)))"
    if j: "j < length ?rs"
      and later: "\<forall>j'. j < j' \<and> j' < length ?rs \<longrightarrow>
            coerce E t pk (the ((?rs ! j') pk)) \<noteq> coerce E t pk (the ((?rs ! j) pk))"
    for j
  proof -
    have accj: "acceptable E t cols pk (?rs ! j')" if "j' < length ?rs" for j'
      using assms(3) that by simp
    have key: "(?exs ! j') pk = coerce E t pk (the ((?rs ! j') pk))" if "j' < length ?rs" for j'
      using proposed_key [OF assms(1) accj [OF that] that] .
    have j1: "j < length ?exs" using j by simp
    have l1: "\<forall>j'. j < j' \<and> j' < length ?exs \<longrightarrow>
        (?exs ! j') (conflict ?q) \<noteq> (?exs ! j) (conflict ?q)"
      using later j by (simp add: key)
    from fold_upsert_row_of_last [OF j1 l1, of "s_tables s t", folded T'_def]
    obtain i where i: "i < length T'" "(T' ! i) pk = (?exs ! j) pk"
      "\<forall>c \<in> set cols - {pk} \<union> {''_ingested_at''}. (T' ! i) c = (?exs ! j) c"
      by auto
    note pv = proposed_nth [OF assms(1) accj [OF j] j, of "ticks s"]
    have ts: "''_ingested_at'' \<notin> set cols" using assms(1) by (simp add: wf_desc_def)
    have "(T' ! i) c = coerce E t c (the ((?rs ! j) c))" if "c \<in> set cols" for c
    proof (cases "c = pk")
      case True
      with i(2) key [OF j] show ?thesis by simp
    next
      case False
      with i(3) that have "(T' ! i) c = (?exs ! j) c" by simp
      with pv [of c] that show ?thesis by simp
    qed
    moreover have "(T' ! i) ''_ingested_at'' = Some (PTime (clock E (ticks s + j)))"
      using i(3) pv [of "''_ingested_at''"] ts by simp
    ultimately show ?thesis using i(1) by blast
  qed
  have 4: "\<forall>j < length ?rs.
         (\<forall>j'. j < j' \<and> j' < length ?rs \<longrightarrow>
            coerce E t pk (the ((?rs ! j') pk)) \<noteq> coerce E t pk (the ((?rs ! j) pk))) \<longrightarrow>
         (\<exists>i < length T'.
            (\<forall>c \<in> set cols. (T' ! i) c = coerce E t c (the ((?rs ! j) c))) \<and>
            (T' ! i) ''_ingested_at'' = Some (PTime (clock E (ticks s + j))))"
  proof (intro allI impI)
    fix j assume "j < length ?rs" and "\<forall>j'. j < j' \<and> j' < length ?rs \<longrightarrow>
            coerce E t pk (the ((?rs ! j') pk)) \<noteq> coerce E t pk (the ((?rs ! j) pk))"
    then show "\<exists>i < length T'.
            (\<forall>c \<in> set cols. (T' ! i) c = coerce E t c (the ((?rs ! j) c))) \<and>
            (T' ! i) ''_ingested_at'' = Some (PTime (clock E (ticks s + j)))"
      by (rule last)
  qed
  note c1 = run and c2 = la(3) and c3 = d [folded tab] and c4 = 4 [folded tab]
  show ?thesis
    by (rule exI [of _ s'], intro conjI) (rule c1, rule c2, rule c3, rule c4)
qed

theorem duplicate_keys_last_wins_witness:
  "wf_desc product_cols ''id''
   \<and> files (env_ex [''products.csv'' \<mapsto> products_twice]) ''products.csv'' = Some products_twice
   \<and> read_error (env_ex [''products.csv'' \<mapsto> products_twice]) ''products.csv'' = None
   \<and> list_all (acceptable (env_ex [''products.csv'' \<mapsto> products_twice]) ''public.products''
        product_cols ''id'') (DictReader products_twice)
   \<and> \<not> aborted session_empty
   \<and> distinct (map (\<lambda>x. x ''id'') (s_tables session_empty ''public.products''))
   \<and> (\<exists>s'. load_table (env_ex [''products.csv'' \<mapsto> products_twice]) ''public.products''
          ''products.csv'' product_cols ''id'' session_empty = (Inr 3, s')
        \<and> distinct (map (\<lambda>x. x ''id'') (s_tables s' ''public.products''))
        \<and> (\<exists>i < length (s_tables s' ''public.products'').
             (s_tables s' ''public.products'' ! i) ''id'' = Some (PStr ''1'') \<and>
             (s_tables s' ''public.products'' ! i) ''name'' = Some (PStr ''Mat Pro'') \<and>
             (s_tables s' ''public.products'' ! i) ''_ingested_at'' = Some (PTime 1020)))"
proof -
  let ?E = "env_ex [''products.csv'' \<mapsto> products_twice]"
  let ?t = "''public.products''"
  have f: "files ?E ''products.csv'' = Some products_twice" by (simp add: env_ex_def)
  have acc: "\<forall>r \<in> set (DictReader products_twice). acceptable ?E ?t product_cols ''id'' r"
    using acceptable_products_twice [of "[''products.csv'' \<mapsto> products_twice]"]
    by (simp add: list_all_iff)
  have na: "\<not> aborted session_empty" by (simp add: session_empty_def)
  have d: "distinct (map (\<lambda>x. x ''id'') (s_tables session_empty ?t))"
    by (simp add: session_empty_def)
  have n3: "length (DictReader products_twice) = 3" by (simp add: DictReader_products_twice)
  have r2: "DictReader products_twice ! 2 =
      dict_row product_cols [''1'', ''Mat Pro'', ''Sports'', ''24.99'', ''Acme'']"
    by (simp add: DictReader_products_twice)
  have rd: "read_error ?E ''products.csv'' = None" by (simp add: env_ex_def)
  from duplicate_keys_last_wins [OF wf_product_cols f acc na d rd]
  obtain s' where run: "load_table ?E ?t ''products.csv'' product_cols ''id'' session_empty
        = (Inr (length (DictReader products_twice)), s')"
    and dist: "distinct (map (\<lambda>x. x ''id'') (s_tables s' ?t))"
    and lastw: "\<forall>j < length (DictReader products_twice).
         (\<forall>j'. j < j' \<and> j' < length (DictReader products_twice) \<longrightarrow>
            coerce ?E ?t ''id'' (the ((DictReader products_twice ! j') ''id''))
              \<noteq> coerce ?E ?t ''id'' (the ((DictReader products_twice ! j) ''id''))) \<longrightarrow>
         (\<exists>i < length (s_tables s' ?t).
            (\<forall>c \<in> set product_cols.
               (s_tables s' ?t ! i) c = coerce ?E ?t c (the ((DictReader products_twice ! j) c))) \<and>
            (s_tables s' ?t ! i) ''_ingested_at'' =
               Some (PTime (clock ?E (ticks session_empty + j))))"
    by blast
  have "\<forall>j'. 2 < j' \<and> j' < length (DictReader products_twice) \<longrightarrow>
            coerce ?E ?t ''id'' (the ((DictReader products_twice ! j') ''id''))
              \<noteq> coerce ?E ?t ''id'' (the ((DictReader products_twice ! 2) ''id''))"
    unfolding n3 by (intro allI impI) arith
  with lastw [rule_format, of 2] n3 obtain i where i: "i < length (s_tables s' ?t)"
    "\<forall>c \<in> set product_cols.
       (s_tables s' ?t ! i) c = coerce ?E ?t c (the ((DictReader products_twice ! 2) c))"
    "(s_tables s' ?t ! i) ''_ingested_at'' = Some (PTime (clock ?E (ticks session_empty + 2)))"
    by auto
  have v: "(s_tables s' ?t ! i) ''id'' = Some (PStr ''1'')"
    "(s_tables s' ?t ! i) ''name'' = Some (PStr ''Mat Pro'')"
    using i(2) unfolding r2
    by (simp_all add: product_cols_def dict_row_def env_ex_def coerce_ex_def digits_def)
  have ts: "(s_tables s' ?t ! i) ''_ingested_at'' = Some (PTime 1020)"
    using i(3) by (simp add: env_ex_def clock_ex_def session_empty_def)
  from i(1) v ts have row: "\<exists>i < length (s_tables s' ?t).
             (s_tables s' ?t ! i) ''id'' = Some (PStr ''1'') \<and>
             (s_tables s' ?t ! i) ''name'' = Some (PStr ''Mat Pro'') \<and>
             (s_tables s' ?t ! i) ''_ingested_at'' = Some (PTime 1020)" by blast
  from run n3 have run3: "load_table ?E ?t ''products.csv'' product_cols ''id'' session_empty
        = (Inr 3, s')" by simp
  from run3 dist row have "\<exists>s'. load_table ?E ?t ''products.csv'' product_cols ''id'' session_empty
        = (Inr 3, s')
        \<and> distinct (map (\<lambda>x. x ''id'') (s_tables s' ?t))
        \<and> (\<exists>i < length (s_tables s' ?t).
             (s_tables s' ?t ! i) ''id'' = Some (PStr ''1'') \<and>
             (s_tables s' ?t ! i) ''name'' = Some (PStr ''Mat Pro'') \<and>
             (s_tables s' ?t ! i) ''_ingested_at'' = Some (PTime 1020))"
    by (intro exI [of _ s'] conjI)
  with wf_product_cols f rd
    acceptable_products_twice [of "[''products.csv'' \<mapsto> products_twice]"]
    na d show ?thesis by (intro conjI)
qed

text \<open>
  C5. The same file, read to its end both times, loaded twice, the second time on the table
  the first load left (by a run with its own clock \<open>E2\<close> and session \<open>s2\<close>, against the same
  storage): both loads succeed and count every record; the second load adds no row and the
  table keeps one row per key; every row agrees with what the first load left on every
  column but \<^verbatim>\<open>_ingested_at\<close>; and the row of a key carries the clock reading the second
  load took for the last record with that key.
\<close>

theorem reload_changes_only_ingestion_time:
  fixes E E2 :: env and s s2 :: session
  assumes "wf_desc cols pk"
    and "files E p = Some lines" and "files E2 p = Some lines" and "coerce E2 = coerce E"
    and "\<forall>r \<in> set (DictReader lines). acceptable E t cols pk r"
    and "\<not> aborted s" and "distinct (map (\<lambda>x. x pk) (s_tables s t))"
    and "\<not> aborted s2"
    and "s_tables s2 t = s_tables (snd (load_table E t p cols pk s)) t"
    and "read_error E p = None" and "read_error E2 p = None"
  shows "\<exists>s1' s2'.
      load_table E t p cols pk s = (Inr (length (DictReader lines)), s1')
    \<and> load_table E2 t p cols pk s2 = (Inr (length (DictReader lines)), s2')
    \<and> length (s_tables s2' t) = length (s_tables s1' t)
    \<and> distinct (map (\<lambda>x. x pk) (s_tables s2' t))
    \<and> (\<forall>i < length (s_tables s1' t). \<forall>c. c \<noteq> ''_ingested_at'' \<longrightarrow>
          (s_tables s2' t ! i) c = (s_tables s1' t ! i) c)
    \<and> (\<forall>j < length (DictReader lines).
         (\<forall>j'. j < j' \<and> j' < length (DictReader lines) \<longrightarrow>
            coerce E t pk (the ((DictReader lines ! j') pk))
              \<noteq> coerce E t pk (the ((DictReader lines ! j) pk))) \<longrightarrow>
         (\<exists>i < length (s_tables s2' t).
            (s_tables s2' t ! i) pk = coerce E t pk (the ((DictReader lines ! j) pk)) \<and>
            (s_tables s2' t ! i) ''_ingested_at'' = Some (PTime (clock E2 (ticks s2 + j)))))"
proof -
  let ?rs = "DictReader lines"
  let ?q = "upsert_sql t cols pk"
  define exs1 where "exs1 = proposed E t cols pk (ticks s) ?rs"
  define exs2 where "exs2 = proposed E2 t cols pk (ticks s2) ?rs"
  define s1' where "s1' = snd (load_table E t p cols pk s)"
  define s2' where "s2' = snd (load_table E2 t p cols pk s2)"
  define T1 where "T1 = fold (upsert_row ?q) exs1 (s_tables s t)"
  define T2 where "T2 = fold (upsert_row ?q) exs2 T1"
  have acc2: "\<forall>r \<in> set ?rs. acceptable E2 t cols pk r"
    using assms(5) by (simp add: acceptable_cong [OF assms(4)])
  note la1 = load_table_acceptable [OF assms(1,2,5,6,10), of 1000, folded load_table_def,
      folded s1'_def exs1_def]
  note la2 = load_table_acceptable [OF assms(1,3) acc2 assms(8,11), of 1000,
      folded load_table_def, folded s2'_def exs2_def]
  have run1: "load_table E t p cols pk s = (Inr (length ?rs), s1')"
    using la1(1) unfolding s1'_def by (metis prod.collapse)
  have run2: "load_table E2 t p cols pk s2 = (Inr (length ?rs), s2')"
    using la2(1) unfolding s2'_def by (metis prod.collapse)
  have tab1: "s_tables s1' t = T1" unfolding la1(2) T1_def by simp
  have "s_tables s2 t = T1" using assms(9) tab1 by (simp add: s1'_def)
  then have tab2: "s_tables s2' t = T2" unfolding la2(2) T2_def by simp
  have accj: "acceptable E t cols pk (?rs ! j)" if "j < length ?rs" for j
    using assms(5) that by simp
  have accj2: "acceptable E2 t cols pk (?rs ! j)" if "j < length ?rs" for j
    using acc2 that by simp
  have p1: "(exs1 ! j) c =
    (if c \<in> set cols then coerce E t c (the ((?rs ! j) c))
     else if c = ''_ingested_at'' then Some (PTime (clock E (ticks s + j))) else None)"
    if "j < length ?rs" for j c
    unfolding exs1_def using assms(1) accj [OF that] that by (rule proposed_nth)
  have p2: "(exs2 ! j) c =
    (if c \<in> set cols then coerce E t c (the ((?rs ! j) c))
     else if c = ''_ingested_at'' then Some (PTime (clock E2 (ticks s2 + j))) else None)"
    if "j < length ?rs" for j c
    unfolding exs2_def
    using proposed_nth [OF assms(1) accj2 [OF that] that, of "ticks s2" c] assms(4) by simp
  from assms(1) have pk: "pk \<in> set cols" and ts: "''_ingested_at'' \<notin> set cols"
    by (simp_all add: wf_desc_def)
  have l1: "length exs1 = length ?rs" and l2: "length exs2 = length ?rs"
    by (simp_all add: exs1_def exs2_def)
  have len: "length exs2 = length exs1" using l1 l2 by simp
  have keys: "\<forall>j < length exs1. (exs2 ! j) (conflict ?q) = (exs1 ! j) (conflict ?q)"
    using pk by (simp add: l1 p1 p2)
  have data: "\<forall>j < length exs1. \<forall>c \<in> set (updates ?q). c \<noteq> ''_ingested_at'' \<longrightarrow>
      (exs2 ! j) c = (exs1 ! j) c"
    by (simp add: l1 p1 p2)
  note rt = reload_table [OF len keys data, of "s_tables s t", folded T1_def, folded T2_def]
  have d1: "distinct (map (\<lambda>x. x pk) T1)"
    unfolding T1_def using distinct_fold_upsert [of ?q "s_tables s t" exs1] assms(7) by simp
  have d2: "distinct (map (\<lambda>x. x pk) T2)"
    unfolding T2_def using distinct_fold_upsert [of ?q T1 exs2] d1 by simp
  have tsl: "\<forall>j < length ?rs.
         (\<forall>j'. j < j' \<and> j' < length ?rs \<longrightarrow>
            coerce E t pk (the ((?rs ! j') pk)) \<noteq> coerce E t pk (the ((?rs ! j) pk))) \<longrightarrow>
         (\<exists>i < length T2.
            (T2 ! i) pk = coerce E t pk (the ((?rs ! j) pk)) \<and>
            (T2 ! i) ''_ingested_at'' = Some (PTime (clock E2 (ticks s2 + j))))"
  proof (intro allI impI)
    fix j assume j: "j < length ?rs"
      and later: "\<forall>j'. j < j' \<and> j' < length ?rs \<longrightarrow>
            coerce E t pk (the ((?rs ! j') pk)) \<noteq> coerce E t pk (the ((?rs ! j) pk))"
    have j2: "j < length exs2" using j l2 by simp
    have lat2: "\<forall>j'. j < j' \<and> j' < length exs2 \<longrightarrow>
        (exs2 ! j') (conflict ?q) \<noteq> (exs2 ! j) (conflict ?q)"
      using later j pk by (simp add: l2 p2)
    from fold_upsert_row_of_last [OF j2 lat2, of T1, folded T2_def]
    obtain i where i: "i < length T2" "(T2 ! i) pk = (exs2 ! j) pk"
      "\<forall>c \<in> set cols - {pk} \<union> {''_ingested_at''}. (T2 ! i) c = (exs2 ! j) c"
      by auto
    have "(T2 ! i) pk = coerce E t pk (the ((?rs ! j) pk))"
      using i(2) pk by (simp add: p2 [OF j])
    moreover have "(T2 ! i) ''_ingested_at'' = Some (PTime (clock E2 (ticks s2 + j)))"
      using i(3) ts by (simp add: p2 [OF j])
    ultimately show "\<exists>i < length T2.
            (T2 ! i) pk = coerce E t pk (the ((?rs ! j) pk)) \<and>
            (T2 ! i) ''_ingested_at'' = Some (PTime (clock E2 (ticks s2 + j)))"
      using i(1) by blast
  qed
  note c1 = run1 and c2 = run2 and c3 = rt(1) [folded tab1 tab2]
    and c4 = d2 [folded tab2] and c5 = rt(2) [folded tab1 tab2] and c6 = tsl [folded tab2]
  show ?thesis
    by (rule exI [of _ s1'], rule exI [of _ s2'], intro conjI)
       (rule c1, rule c2, rule c3, rule c4, rule c5, rule c6)
qed

theorem reload_changes_only_ingestion_time_witness:
  "wf_desc product_cols ''id''
   \<and> files (env_ex [''products.csv'' \<mapsto> products_twice]) ''products.csv'' = Some products_twice
   \<and> files (env_later [''products.csv'' \<mapsto> products_twice]) ''products.csv'' = Some products_twice
   \<and> coerce (env_later [''products.csv'' \<mapsto> products_twice])
       = coerce (env_ex [''products.csv'' \<mapsto> products_twice])
   \<and> read_error (env_ex [''products.csv'' \<mapsto> products_twice]) ''products.csv'' = None
   \<and> read_error (env_later [''products.csv'' \<mapsto> products_twice]) ''products.csv'' = None
   \<and> list_all (acceptable (env_ex [''products.csv'' \<mapsto> products_twice]) ''public.products''
        product_cols ''id'') (DictReader products_twice)
   \<and> \<not> aborted session_empty
   \<and> distinct (map (\<lambda>x. x ''id'') (s_tables session_empty ''public.products''))
   \<and> \<not> aborted (session_after (snd (load_table (env_ex [''products.csv'' \<mapsto> products_twice])
          ''public.products'' ''products.csv'' product_cols ''id'' session_empty)))
   \<and> (\<exists>s1' s2'.
        load_table (env_ex [''products.csv'' \<mapsto> products_twice]) ''public.products''
          ''products.csv'' product_cols ''id'' session_empty = (Inr 3, s1')
      \<and> load_table (env_later [''products.csv'' \<mapsto> products_twice]) ''public.products''
          ''products.csv'' product_cols ''id'' (session_after s1') = (Inr 3, s2')
      \<and> length (s_tables s2' ''public.products'') = length (s_tables s1' ''public.products'')
      \<and> distinct (map (\<lambda>x. x ''id'') (s_tables s2' ''public.products''))
      \<and> (\<exists>i < length (s_tables s2' ''public.products'').
            (s_tables s2' ''public.products'' ! i) ''id'' = Some (PStr ''1'') \<and>
            (s_tables s2' ''public.products'' ! i) ''_ingested_at'' = Some (PTime 5030)))"
proof -
  let ?fs = "[''products.csv'' \<mapsto> products_twice]"
  let ?E = "env_ex ?fs"
  let ?E2 = "env_later ?fs"
  let ?t = "''public.products''"
  define s1 where "s1 = snd (load_table ?E ?t ''products.csv'' product_cols ''id'' session_empty)"
  have f: "files ?E ''products.csv'' = Some products_twice" by (simp add: env_ex_def)
  have f2: "files ?E2 ''products.csv'' = Some products_twice" by (simp add: env_later_def)
  have co: "coerce ?E2 = coerce ?E" by (simp add: env_later_def env_ex_def)
  have acc: "\<forall>r \<in> set (DictReader products_twice). acceptable ?E ?t product_cols ''id'' r"
    using acceptable_products_twice [of ?fs] by (simp add: list_all_iff)
  have na: "\<not> aborted session_empty" by (simp add: session_empty_def)
  have d: "distinct (map (\<lambda>x. x ''id'') (s_tables session_empty ?t))"
    by (simp add: session_empty_def)
  have na2: "\<not> aborted (session_after s1)" by (simp add: session_after_def)
  have tb: "s_tables (session_after s1) ?t =
      s_tables (snd (load_table ?E ?t ''products.csv'' product_cols ''id'' session_empty)) ?t"
    by (simp add: session_after_def s1_def)
  have n3: "length (DictReader products_twice) = 3" by (simp add: DictReader_products_twice)
  have r2: "DictReader products_twice ! 2 =
      dict_row product_cols [''1'', ''Mat Pro'', ''Sports'', ''24.99'', ''Acme'']"
    by (simp add: DictReader_products_twice)
  have rd: "read_error ?E ''products.csv'' = None" by (simp add: env_ex_def)
  have rd2: "read_error ?E2 ''products.csv'' = None" by (simp add: env_later_def)
  from reload_changes_only_ingestion_time [OF wf_product_cols f f2 co acc na d na2 tb rd rd2]
  obtain s1' s2' where
    run1: "load_table ?E ?t ''products.csv'' product_cols ''id'' session_empty
        = (Inr (length (DictReader products_twice)), s1')"
    and run2: "load_table ?E2 ?t ''products.csv'' product_cols ''id'' (session_after s1)
        = (Inr (length (DictReader products_twice)), s2')"
    and len: "length (s_tables s2' ?t) = length (s_tables s1' ?t)"
    and dist: "distinct (map (\<lambda>x. x ''id'') (s_tables s2' ?t))"
    and lastw: "\<forall>j < length (DictReader products_twice).
         (\<forall>j'. j < j' \<and> j' < length (DictReader products_twice) \<longrightarrow>
            coerce ?E ?t ''id'' (the ((DictReader products_twice ! j') ''id''))
              \<noteq> coerce ?E ?t ''id'' (the ((DictReader products_twice ! j) ''id''))) \<longrightarrow>
         (\<exists>i < length (s_tables s2' ?t).
            (s_tables s2' ?t ! i) ''id''
               = coerce ?E ?t ''id'' (the ((DictReader products_twice ! j) ''id'')) \<and>
            (s_tables s2' ?t ! i) ''_ingested_at'' =
               Some (PTime (clock ?E2 (ticks (session_after s1) + j))))"
    by blast
  have s1eq: "s1' = s1" using run1 by (simp add: s1_def)
  have "\<forall>j'. 2 < j' \<and> j' < length (DictReader products_twice) \<longrightarrow>
            coerce ?E ?t ''id'' (the ((DictReader products_twice ! j') ''id''))
              \<noteq> coerce ?E ?t ''id'' (the ((DictReader products_twice ! 2) ''id''))"
    unfolding n3 by (intro allI impI) arith
  with lastw [rule_format, of 2] n3 obtain i where i: "i < length (s_tables s2' ?t)"
    "(s_tables s2' ?t ! i) ''id''
       = coerce ?E ?t ''id'' (the ((DictReader products_twice ! 2) ''id''))"
    "(s_tables s2' ?t ! i) ''_ingested_at'' =
       Some (PTime (clock ?E2 (ticks (session_after s1) + 2)))"
    by auto
  have v: "(s_tables s2' ?t ! i) ''id'' = Some (PStr ''1'')"
    using i(2) unfolding r2
    by (simp add: product_cols_def dict_row_def env_ex_def coerce_ex_def digits_def)
  have ts: "(s_tables s2' ?t ! i) ''_ingested_at'' = Some (PTime 5030)"
    using i(3) by (simp add: env_later_def session_after_def)
  from i(1) v ts have row: "\<exists>i < length (s_tables s2' ?t).
            (s_tables s2' ?t ! i) ''id'' = Some (PStr ''1'') \<and>
            (s_tables s2' ?t ! i) ''_ingested_at'' = Some (PTime 5030)" by blast
  have run1': "load_table ?E ?t ''products.csv'' product_cols ''id'' session_empty = (Inr 3, s1')"
    using run1 n3 by simp
  have run2': "load_table ?E2 ?t ''products.csv'' product_cols ''id'' (session_after s1')
      = (Inr 3, s2')"
    using run2 n3 s1eq by simp
  have concl: "\<exists>s1' s2'.
        load_table ?E ?t ''products.csv'' product_cols ''id'' session_empty = (Inr 3, s1')
      \<and> load_table ?E2 ?t ''products.csv'' product_cols ''id'' (session_after s1') = (Inr 3, s2')
      \<and> length (s_tables s2' ?t) = length (s_tables s1' ?t)
      \<and> distinct (map (\<lambda>x. x ''id'') (s_tables s2' ?t))
      \<and> (\<exists>i < length (s_tables s2' ?t).
            (s_tables s2' ?t ! i) ''id'' = Some (PStr ''1'') \<and>
            (s_tables s2' ?t ! i) ''_ingested_at'' = Some (PTime 5030))"
    by (rule exI [of _ s1'], rule exI [of _ s2'], intro conjI)
       (rule run1', rule run2', rule len, rule dist, rule row)
  note h5 = acceptable_products_twice [of ?fs] and h8 = na2 [unfolded s1_def]
  show ?thesis
    by (intro conjI) (rule wf_product_cols, rule f, rule f2, rule co, rule rd, rule rd2,
        rule h5, rule na, rule d, rule h8, rule concl)
qed

text \<open>
  C7, counterexample. The claim says that the finish timestamp of the audit row of a
  successful run is not before its start timestamp. Both are readings of the wall clock
  (\<^verbatim>\<open>datetime.utcnow()\<close>): on a machine whose clock loses ten units between readings, a run
  that loads one record per dataset succeeds with the start timestamp 100 and the finish
  timestamp 60.
\<close>

theorem finish_before_start_counterexample:
  "fst (main (env_clock_back (files3 customers_ok products_ok transactions_ok)) 7 db_empty)
     = Returned
   \<and> map status (load_audit (snd (main (env_clock_back (files3 customers_ok products_ok
        transactions_ok)) 7 db_empty))) = [''succeeded'']
   \<and> map started_at_utc (load_audit (snd (main (env_clock_back (files3 customers_ok products_ok
        transactions_ok)) 7 db_empty))) = [100]
   \<and> map finished_at_utc (load_audit (snd (main (env_clock_back (files3 customers_ok
        products_ok transactions_ok)) 7 db_empty))) = [Some 60]"
proof -
  let ?E = "env_clock_back (files3 customers_ok products_ok transactions_ok)"
  from main_three_ok [OF env_clock_back_simps(1,2,3), where b = 7] obtain T where
    "main ?E 7 db_empty =
      (Returned, \<lparr> tables = T,
         load_audit = [audit_entry ?E 7 (Some (clock ?E 4)) ''succeeded''
           (Stats [(''public.customers'', 1), (''public.products'', 1),
                   (''public.transactions'', 1)])] \<rparr>)" by blast
  then show ?thesis by (simp add: audit_entry_def env_clock_back_simps(4))
qed

text \<open>
  C7, as amended. After a run of \<^verbatim>\<open>main\<close> that returns, the audit table holds exactly one row
  for the batch identifier of the run; its status is \<^verbatim>\<open>succeeded\<close>; its finish timestamp is
  set and, when the clock never goes back, is not before its start timestamp; its details
  hold one entry per dataset of \<^verbatim>\<open>FILES\<close>, in that order, with the number of records of the
  dataset's file, every file being present and read to its end. The rows of the other
  batches are what they were.
\<close>

theorem successful_run_audit:
  assumes "main E b db0 = (Returned, db')"
  shows "\<exists>a. [r \<leftarrow> load_audit db'. batch_id r = b] = [a]
    \<and> [r \<leftarrow> load_audit db'. batch_id r \<noteq> b] = load_audit db0
    \<and> status a = ''succeeded''
    \<and> (\<exists>fin. finished_at_utc a = Some fin \<and>
          ((\<forall>i j. i \<le> j \<longrightarrow> clock E i \<le> clock E j) \<longrightarrow> started_at_utc a \<le> fin))
    \<and> details a = Stats (counts E FILES)
    \<and> map fst (counts E FILES) = [''public.customers'', ''public.products'', ''public.transactions'']
    \<and> (\<forall>t f cols pk. (t, f, cols, pk) \<in> set FILES \<longrightarrow> files E f \<noteq> None)
    \<and> read_to_end E FILES"
proof -
  note c = main_Returned_cases [OF assms]
  from c(3) obtain ds s2 where la: "load_all E FILES [] (started_session E b db0) = (Inr ds, s2)"
    by blast
  have files: "\<forall>x \<in> set FILES. files E (fst (snd x)) \<noteq> None"
    using check_files_None [OF c(1)] by auto
  have na: "\<not> aborted (started_session E b db0)" by (simp add: started_session_def)
  note las = load_all_success [OF files na la]
  have ds: "ds = counts E FILES" using las [THEN conjunct2, THEN conjunct2, THEN conjunct1] by simp
  have tk: "1 \<le> ticks s2"
    using las [THEN conjunct2, THEN conjunct2, THEN conjunct2, THEN conjunct1]
    by (simp add: started_session_def)
  define a where "a = audit_entry E b (Some (clock E (ticks s2))) ''succeeded'' (Stats ds)"
  have db': "db' = \<lparr> tables = s_tables s2, load_audit = load_audit db0 @ [a] \<rparr>"
    using main_succeeds [OF c(1,2) la] assms by (simp add: a_def)
  have ba: "batch_id a = b" by (simp add: a_def audit_entry_def)
  have 1: "[r \<leftarrow> load_audit db'. batch_id r = b] = [a]"
    unfolding db' using filter_batch_appended(1) [OF c(2) ba] by simp
  have 2: "[r \<leftarrow> load_audit db'. batch_id r \<noteq> b] = load_audit db0"
    unfolding db' using filter_batch_appended(2) [OF c(2) ba] by simp
  have 3: "status a = ''succeeded''" by (simp add: a_def audit_entry_def)
  have "finished_at_utc a = Some (clock E (ticks s2)) \<and>
          ((\<forall>i j. i \<le> j \<longrightarrow> clock E i \<le> clock E j) \<longrightarrow> started_at_utc a \<le> clock E (ticks s2))"
    by (simp add: a_def audit_entry_def)
  then have 4: "\<exists>fin. finished_at_utc a = Some fin \<and>
          ((\<forall>i j. i \<le> j \<longrightarrow> clock E i \<le> clock E j) \<longrightarrow> started_at_utc a \<le> fin)" by blast
  have 5: "details a = Stats (counts E FILES)" by (simp add: a_def audit_entry_def ds)
  have 6: "map fst (counts E FILES)
      = [''public.customers'', ''public.products'', ''public.transactions'']"
    by (simp add: counts_def FILES_def)
  have 7: "\<forall>t f cols pk. (t, f, cols, pk) \<in> set FILES \<longrightarrow> files E f \<noteq> None"
    using check_files_None [OF c(1)] by blast
  have 8: "read_to_end E FILES" using files na la by (rule load_all_success_reads)
  show ?thesis
    by (rule exI [of _ a], intro conjI)
       (rule 1, rule 2, rule 3, rule 4, rule 5, rule 6, rule 7, rule 8)
qed

theorem successful_run_audit_witness:
  "fst (main (env_ex (files3 customers_ok products_ok transactions_ok)) 7 db_empty) = Returned
   \<and> (\<exists>a. [r \<leftarrow> load_audit (snd (main (env_ex (files3 customers_ok products_ok transactions_ok))
                 7 db_empty)). batch_id r = 7] = [a]
        \<and> status a = ''succeeded''
        \<and> (\<exists>fin. finished_at_utc a = Some fin \<and> started_at_utc a \<le> fin)
        \<and> details a = Stats [(''public.customers'', 1), (''public.products'', 1),
             (''public.transactions'', 1)])"
proof -
  let ?E = "env_ex (files3 customers_ok products_ok transactions_ok)"
  from main_three_ok [OF env_ex_simps(1,2,3), where b = 7] obtain db' where
    run: "main ?E 7 db_empty = (Returned, db')" by blast
  have cnt: "counts ?E FILES =
      [(''public.customers'', 1), (''public.products'', 1), (''public.transactions'', 1)]"
    unfolding FILES_cols
    by (simp add: counts_def files3_simps [OF env_ex_simps(2)] DictReader_customers_ok
        DictReader_products_ok DictReader_transactions_ok)
  have mono: "\<forall>i j. i \<le> j \<longrightarrow> clock ?E i \<le> clock ?E j"
    by (simp add: env_ex_def clock_ex_def)
  from successful_run_audit [OF run]
  have "\<exists>a. [r \<leftarrow> load_audit db'. batch_id r = 7] = [a]
        \<and> status a = ''succeeded''
        \<and> (\<exists>fin. finished_at_utc a = Some fin \<and> started_at_utc a \<le> fin)
        \<and> details a = Stats [(''public.customers'', 1), (''public.products'', 1),
             (''public.transactions'', 1)]"
  proof (elim exE conjE)
    fix a fin
    assume 1: "[r \<leftarrow> load_audit db'. batch_id r = 7] = [a]"
      and 2: "status a = ''succeeded''"
      and 3: "finished_at_utc a = Some fin"
      and 4: "(\<forall>i j. i \<le> j \<longrightarrow> clock ?E i \<le> clock ?E j) \<longrightarrow> started_at_utc a \<le> fin"
      and 5: "details a = Stats (counts ?E FILES)"
    from 4 mono have "started_at_utc a \<le> fin" by (rule mp)
    with 3 have fin: "\<exists>fin. finished_at_utc a = Some fin \<and> started_at_utc a \<le> fin" by blast
    show ?thesis
      by (rule exI [of _ a], intro conjI) (rule 1, rule 2, rule fin, rule 5 [unfolded cnt])
  qed
  then show ?thesis unfolding run by simp
qed

text \<open>
  C1, counterexample. The claim says that a run that fails during loading commits no row of
  any data table. With a \<^verbatim>\<open>products.csv\<close> whose header has no \<^verbatim>\<open>supplier\<close> column, the customers
  are loaded, \<^verbatim>\<open>load_table\<close> raises \<^verbatim>\<open>KeyError\<close> on the products, and the commit of the
  \<^verbatim>\<open>except\<close> branch makes the customer row durable together with the \<^verbatim>\<open>failed\<close> audit row.
\<close>

theorem failed_run_commits_loaded_rows_counterexample:
  "fst (main (env_ex (files3 customers_ok products_no_supplier transactions_ok)) 7 db_empty)
     = Raised (KeyError ''supplier'')
   \<and> map status (load_audit (snd (main (env_ex (files3 customers_ok products_no_supplier
        transactions_ok)) 7 db_empty))) = [''failed'']
   \<and> length (tables (snd (main (env_ex (files3 customers_ok products_no_supplier
        transactions_ok)) 7 db_empty)) ''public.customers'') = 1"
proof -
  from main_example_no_supplier [of 7] obtain sA :: session and fin where
    "main (env_ex (files3 customers_ok products_no_supplier transactions_ok)) 7 db_empty
      = (Raised (KeyError ''supplier''),
         \<lparr> tables = s_tables sA,
           load_audit = [audit_entry (env_ex (files3 customers_ok products_no_supplier
              transactions_ok)) 7 (Some fin) ''failed'' (Failure (KeyError ''supplier''))] \<rparr>)"
    and "length (s_tables sA ''public.customers'') = 1" .
  then show ?thesis by (simp add: audit_entry_def)
qed

text \<open>
  C1, as amended. A run of \<^verbatim>\<open>main\<close> whose files are all present and whose batch identifier is
  new, and which raises, ends in one of two ways. Either the storage refused a row: the
  transaction is aborted, the \<^verbatim>\<open>UPDATE\<close> of the audit row is refused in its turn, the error
  that leaves \<^verbatim>\<open>main\<close> is that refusal, and nothing is committed, the audit row included. Or
  the error was raised by the loader itself, \<^verbatim>\<open>KeyError\<close> for a file that lacks a declared
  column or the error of the reader of a file: then exactly one audit row exists for the
  batch, with status \<^verbatim>\<open>failed\<close>, a finish timestamp and the error as details, and the same
  commit makes durable the tables as the transaction saw them when the error was raised,
  with the rows loaded before it.
\<close>

theorem failed_run_audit_and_data:
  assumes "check_files E FILES = None" and "\<not> (\<exists>r \<in> set (load_audit db0). batch_id r = b)"
    and "main E b db0 = (Raised e, db')"
  shows "(e = InFailedSqlTransaction \<and> db' = db0)
    \<or> ((((\<exists>c. e = KeyError c) \<and> lacks_column E FILES) \<or> reading_fails E FILES e)
       \<and> (\<exists>a. [r \<leftarrow> load_audit db'. batch_id r = b] = [a] \<and> status a = ''failed'' \<and>
             (\<exists>fin. finished_at_utc a = Some fin) \<and> details a = Failure e)
       \<and> [r \<leftarrow> load_audit db'. batch_id r \<noteq> b] = load_audit db0
       \<and> tables db' = s_tables (snd (load_all E FILES [] (started_session E b db0))))"
proof -
  obtain res s2 where la: "load_all E FILES [] (started_session E b db0) = (res, s2)"
    by (cases "load_all E FILES [] (started_session E b db0)")
  have files: "\<forall>x \<in> set FILES. files E (fst (snd x)) \<noteq> None"
    using check_files_None [OF assms(1)] by auto
  have na: "\<not> aborted (started_session E b db0)" by (simp add: started_session_def)
  show ?thesis
  proof (cases res)
    case (Inr ds)
    from main_succeeds [OF assms(1,2) la [unfolded Inr]] assms(3) show ?thesis by simp
  next
    case (Inl e0)
    note mf = main_fails [OF assms(1,2) la [unfolded Inl]]
    note laf = load_all_failure [OF files na la [unfolded Inl]]
    show ?thesis
    proof (cases "aborted s2")
      case True
      with mf assms(3) have "e = InFailedSqlTransaction \<and> db' = db0" by simp
      then show ?thesis by (rule disjI1)
    next
      case False
      define a where "a = audit_entry E b (Some (clock E (ticks s2))) ''failed'' (Failure e0)"
      from mf False assms(3) have e: "e = e0"
        and db': "db' = \<lparr> tables = s_tables s2, load_audit = load_audit db0 @ [a] \<rparr>"
        by (simp_all add: a_def)
      have ba: "batch_id a = b" by (simp add: a_def audit_entry_def)
      from laf [THEN conjunct2] False
      have 1: "((\<exists>c. e = KeyError c) \<and> lacks_column E FILES) \<or> reading_fails E FILES e"
        unfolding e by simp
      have "[r \<leftarrow> load_audit db'. batch_id r = b] = [a] \<and> status a = ''failed'' \<and>
             (\<exists>fin. finished_at_utc a = Some fin) \<and> details a = Failure e"
        unfolding db' using filter_batch_appended(1) [OF assms(2) ba]
        by (simp add: a_def audit_entry_def e)
      then have 3: "\<exists>a. [r \<leftarrow> load_audit db'. batch_id r = b] = [a] \<and> status a = ''failed'' \<and>
             (\<exists>fin. finished_at_utc a = Some fin) \<and> details a = Failure e" by (rule exI)
      have 4: "[r \<leftarrow> load_audit db'. batch_id r \<noteq> b] = load_audit db0"
        unfolding db' using filter_batch_appended(2) [OF assms(2) ba] by simp
      have 5: "tables db' = s_tables (snd (load_all E FILES [] (started_session E b db0)))"
        unfolding db' la by simp
      show ?thesis by (rule disjI2, intro conjI) (rule 1, rule 3, rule 4, rule 5)
    qed
  qed
qed

theorem failed_run_audit_and_data_witness:
  "check_files (env_ex (files3 customers_ok products_no_supplier transactions_ok)) FILES = None
   \<and> \<not> (\<exists>r \<in> set (load_audit db_empty). batch_id r = 7)
   \<and> fst (main (env_ex (files3 customers_ok products_no_supplier transactions_ok)) 7 db_empty)
       = Raised (KeyError ''supplier'')
   \<and> lacks_column (env_ex (files3 customers_ok products_no_supplier transactions_ok)) FILES
   \<and> (\<exists>a. [r \<leftarrow> load_audit (snd (main (env_ex (files3 customers_ok products_no_supplier
                 transactions_ok)) 7 db_empty)). batch_id r = 7] = [a]
        \<and> status a = ''failed'' \<and> (\<exists>fin. finished_at_utc a = Some fin)
        \<and> details a = Failure (KeyError ''supplier''))
   \<and> tables (snd (main (env_ex (files3 customers_ok products_no_supplier transactions_ok)) 7
         db_empty))
       = s_tables (snd (load_all (env_ex (files3 customers_ok products_no_supplier
           transactions_ok)) FILES []
           (started_session (env_ex (files3 customers_ok products_no_supplier transactions_ok))
              7 db_empty)))"
proof -
  let ?E = "env_ex (files3 customers_ok products_no_supplier transactions_ok)"
  from main_example_no_supplier [of 7] obtain db' where
    run: "main ?E 7 db_empty = (Raised (KeyError ''supplier''), db')" by blast
  note cf = check_files3 [OF env_ex_simps(2),
      where c = customers_ok and p = products_no_supplier and t = transactions_ok]
  note fr = fresh_db_empty [of 7]
  have nr: "\<not> reading_fails ?E FILES (KeyError ''supplier'')"
    using read_to_end_env_ex by (rule read_to_end_not_fails)
  from failed_run_audit_and_data [OF cf fr run] nr
  have "lacks_column ?E FILES
       \<and> (\<exists>a. [r \<leftarrow> load_audit db'. batch_id r = 7] = [a] \<and> status a = ''failed'' \<and>
             (\<exists>fin. finished_at_utc a = Some fin) \<and> details a = Failure (KeyError ''supplier''))
       \<and> tables db' = s_tables (snd (load_all ?E FILES [] (started_session ?E 7 db_empty)))"
    by simp
  with cf fr show ?thesis unfolding run by simp
qed

text \<open>
  C3, counterexample. The claim says that a load attempt with a malformed record applies no
  part of the batch. With a \<^verbatim>\<open>transactions.csv\<close> whose header has no \<^verbatim>\<open>payment_method\<close> column
  the record of that file is malformed, the run raises, and the customer and product rows
  loaded before it are committed.
\<close>

theorem malformed_record_partial_commit_counterexample:
  "\<not> acceptable (env_ex (files3 customers_ok products_ok transactions_no_method))
       ''public.transactions'' transaction_cols ''id''
       (dict_row [''id'', ''customer_id'', ''product_id'', ''quantity'', ''timestamp'']
          [''1'', ''1'', ''1'', ''2'', ''2024-02-01T10:00:00''])
   \<and> DictReader transactions_no_method =
       [dict_row [''id'', ''customer_id'', ''product_id'', ''quantity'', ''timestamp'']
          [''1'', ''1'', ''1'', ''2'', ''2024-02-01T10:00:00'']]
   \<and> fst (main (env_ex (files3 customers_ok products_ok transactions_no_method)) 7 db_empty)
     = Raised (KeyError ''payment_method'')
   \<and> length (tables (snd (main (env_ex (files3 customers_ok products_ok
        transactions_no_method)) 7 db_empty)) ''public.customers'') = 1
   \<and> length (tables (snd (main (env_ex (files3 customers_ok products_ok
        transactions_no_method)) 7 db_empty)) ''public.products'') = 1"
proof -
  let ?E = "env_ex (files3 customers_ok products_ok transactions_no_method)"
  have 1: "\<not> acceptable ?E ''public.transactions'' transaction_cols ''id''
       (dict_row [''id'', ''customer_id'', ''product_id'', ''quantity'', ''timestamp'']
          [''1'', ''1'', ''1'', ''2'', ''2024-02-01T10:00:00''])"
    by (simp add: acceptable_def dom_dict_row transaction_cols_def)
  have 2: "DictReader transactions_no_method =
       [dict_row [''id'', ''customer_id'', ''product_id'', ''quantity'', ''timestamp'']
          [''1'', ''1'', ''1'', ''2'', ''2024-02-01T10:00:00'']]"
    by (simp add: DictReader_def transactions_no_method_def)
  from main_example_no_method [of 7] obtain sB :: session and fin where
    "main ?E 7 db_empty
      = (Raised (KeyError ''payment_method''),
         \<lparr> tables = s_tables sB,
           load_audit = [audit_entry ?E 7 (Some fin) ''failed''
              (Failure (KeyError ''payment_method''))] \<rparr>)"
    and "length (s_tables sB ''public.customers'') = 1"
    and "length (s_tables sB ''public.products'') = 1" .
  with 1 2 show ?thesis by simp
qed

text \<open>
  C3, as amended. When a file of a configured dataset holds a malformed record (a declared
  column is missing, or a value is not storable in its column), \<^verbatim>\<open>main\<close> raises: no run
  returns with a record left out. Unless the error is a \<^verbatim>\<open>KeyError\<close> or the error of the
  reader of a file, the committed content of the database is what it was before the run;
  in particular, when no file lacks a declared column and every file is read to its end, a
  value the storage refuses leaves nothing applied.
\<close>

theorem malformed_record_fails_run:
  assumes "(t, f, cols, pk) \<in> set FILES" and "files E f = Some lines"
    and "r \<in> set (DictReader lines)" and "\<not> acceptable E t cols pk r"
  shows "\<exists>e. fst (main E b db0) = Raised e
    \<and> ((\<forall>c. e \<noteq> KeyError c) \<and> \<not> reading_fails E FILES e \<longrightarrow> snd (main E b db0) = db0)
    \<and> (\<not> lacks_column E FILES \<and> read_to_end E FILES \<longrightarrow> snd (main E b db0) = db0)"
proof (cases "check_files E FILES")
  case (Some e)
  from main_missing [OF this, of b db0] show ?thesis by simp
next
  case None
  show ?thesis
  proof (cases "\<exists>r \<in> set (load_audit db0). batch_id r = b")
    case True
    from main_not_fresh [OF None True] show ?thesis by simp
  next
    case False
    obtain res s2 where la: "load_all E FILES [] (started_session E b db0) = (res, s2)"
      by (cases "load_all E FILES [] (started_session E b db0)")
    have files: "\<forall>x \<in> set FILES. files E (fst (snd x)) \<noteq> None"
      using check_files_None [OF None] by auto
    have na: "\<not> aborted (started_session E b db0)" by (simp add: started_session_def)
    show ?thesis
    proof (cases res)
      case (Inr ds)
      note las = load_all_success [OF files na la [unfolded Inr]]
      have "(t, f, cols, pk) \<in> set FILES \<and> files E f = Some lines \<and> wf_desc cols pk"
        using assms(1,2) wf_FILES [OF assms(1)] by simp
      from las [THEN conjunct2, THEN conjunct2, THEN conjunct2, THEN conjunct2,
          THEN spec, THEN spec, THEN spec, THEN spec, THEN spec, THEN mp, OF this]
      have "acceptable E t cols pk r" using assms(3) by simp
      with assms(4) show ?thesis by simp
    next
      case (Inl e0)
      note mf = main_fails [OF None False la [unfolded Inl]]
      note laf = load_all_failure [OF files na la [unfolded Inl]]
      show ?thesis
      proof (cases "aborted s2")
        case True
        with mf show ?thesis by simp
      next
        case na2: False
        with laf [THEN conjunct2]
        have k: "((\<exists>c. e0 = KeyError c) \<and> lacks_column E FILES) \<or> reading_fails E FILES e0"
          by simp
        have m: "main E b db0 = (Raised e0, \<lparr> tables = s_tables s2,
            load_audit = load_audit db0 @
              [audit_entry E b (Some (clock E (ticks s2))) ''failed'' (Failure e0)] \<rparr>)"
          using mf na2 by simp
        have a: "(\<forall>c. e0 \<noteq> KeyError c) \<and> \<not> reading_fails E FILES e0 \<longrightarrow>
            snd (main E b db0) = db0" using k by blast
        have b: "\<not> lacks_column E FILES \<and> read_to_end E FILES \<longrightarrow> snd (main E b db0) = db0"
          using k read_to_end_not_fails [of E FILES e0] by blast
        have "fst (main E b db0) = Raised e0" using m by simp
        with a b show ?thesis by blast
      qed
    qed
  qed
qed

theorem malformed_record_fails_run_witness:
  "(''public.transactions'', ''transactions.csv'', transaction_cols, ''id'') \<in> set FILES
   \<and> files (env_ex (files3 customers_ok products_ok transactions_bad_quantity))
        ''transactions.csv'' = Some transactions_bad_quantity
   \<and> dict_row transaction_cols [''1'', ''1'', ''1'', ''two'', ''2024-02-01T10:00:00'', ''card'']
        \<in> set (DictReader transactions_bad_quantity)
   \<and> \<not> acceptable (env_ex (files3 customers_ok products_ok transactions_bad_quantity))
        ''public.transactions'' transaction_cols ''id''
        (dict_row transaction_cols [''1'', ''1'', ''1'', ''two'', ''2024-02-01T10:00:00'', ''card''])
   \<and> \<not> lacks_column (env_ex (files3 customers_ok products_ok transactions_bad_quantity)) FILES
   \<and> read_to_end (env_ex (files3 customers_ok products_ok transactions_bad_quantity)) FILES
   \<and> (\<exists>e. fst (main (env_ex (files3 customers_ok products_ok transactions_bad_quantity)) 7
          db_empty) = Raised e)
   \<and> snd (main (env_ex (files3 customers_ok products_ok transactions_bad_quantity)) 7 db_empty)
       = db_empty"
proof -
  let ?E = "env_ex (files3 customers_ok products_ok transactions_bad_quantity)"
  let ?r = "dict_row transaction_cols [''1'', ''1'', ''1'', ''two'', ''2024-02-01T10:00:00'', ''card'']"
  have 1: "(''public.transactions'', ''transactions.csv'', transaction_cols, ''id'') \<in> set FILES"
    unfolding FILES_cols by simp
  note f = files3_simps [OF env_ex_simps(2),
      where c = customers_ok and p = products_ok and t = transactions_bad_quantity]
  have 2: "files ?E ''transactions.csv'' = Some transactions_bad_quantity"
    by (rule f(3))
  have 3: "?r \<in> set (DictReader transactions_bad_quantity)"
    by (simp add: DictReader_transactions_bad_quantity)
  have 4: "\<not> acceptable ?E ''public.transactions'' transaction_cols ''id'' ?r"
    by (rule not_acceptable_bad_quantity [OF env_ex_simps(1)])
  have f1: "files ?E ''customers.csv'' = Some (customer_cols # tl customers_ok)"
    using f(1) by (simp add: customers_ok_def customer_cols_def)
  have f2: "files ?E ''products.csv'' = Some (product_cols # tl products_ok)"
    using f(2) by (simp add: products_ok_def product_cols_def)
  have f3: "files ?E ''transactions.csv'' = Some (transaction_cols # tl transactions_bad_quantity)"
    using f(3) by (simp add: transactions_bad_quantity_def transaction_cols_def)
  have 5: "\<not> lacks_column ?E FILES"
    by (rule not_lacks_column_FILES [OF f1 subset_refl f2 subset_refl f3 subset_refl])
  note 8 = read_to_end_env_ex [of "files3 customers_ok products_ok transactions_bad_quantity"]
  from malformed_record_fails_run [OF 1 2 3 4, of 7 db_empty] 5 8
  have 6: "\<exists>e. fst (main ?E 7 db_empty) = Raised e" and 7: "snd (main ?E 7 db_empty) = db_empty"
    by blast+
  show ?thesis
    by (intro conjI) (rule 1, rule 2, rule 3, rule 4, rule 5, rule 8, rule 6, rule 7)
qed

end
